theory Spec2Isabelle
  imports Complex_Main "HOL-Library.Word"
begin

section \<open>JavaScript numbers\<close>

text \<open>
  The functions of \<^verbatim>\<open>src/helper/bitmap.js\<close> receive JavaScript numbers. A number is
  a finite value or one of the three special values. A finite value is kept as the real
  number it denotes: the integer conversions and comparisons below are exact on
  doubles; the arithmetic of the ellipse rasterizer, further down, rounds every result
  to a double. The sign of zero is not tracked.
\<close>

datatype number = Num real | PosInf | NegInf | NaN

text \<open>\<^verbatim>\<open>Math.trunc\<close>: rounding toward zero.\<close>

definition trunc :: "real \<Rightarrow> int" where
  "trunc r = (if r < 0 then - \<lfloor>- r\<rfloor> else \<lfloor>r\<rfloor>)"

text \<open>Reduction of an integer modulo \<open>2^32\<close> into the signed 32-bit range.\<close>

definition wrap32 :: "int \<Rightarrow> int" where
  "wrap32 i = (i + 2147483648) mod 4294967296 - 2147483648"

text \<open>
  The operator \<^verbatim>\<open>~~v\<close> is ECMAScript's ToInt32: NaN and the infinities give 0, a
  finite value is truncated toward zero and then reduced modulo \<open>2^32\<close>.
\<close>

fun toInt32 :: "number \<Rightarrow> int" where
  "toInt32 (Num r) = wrap32 (trunc r)"
| "toInt32 PosInf = 0"
| "toInt32 NegInf = 0"
| "toInt32 NaN = 0"

section \<open>LineRasterizer: \<^verbatim>\<open>forEachLinePoint\<close>\<close>

record point =
  point_x :: number
  point_y :: number

text \<open>
  The \<^verbatim>\<open>while\<close> loop of \<^verbatim>\<open>forEachLinePoint\<close> (Bresenham stepping). The
  callback's effect is a state transformer; \<open>None\<close> stands for a loop that never
  leaves.
\<close>

partial_function (option) line_loop ::
  "int \<Rightarrow> int \<Rightarrow> int \<Rightarrow> int \<Rightarrow> int \<Rightarrow> int \<Rightarrow> (int \<Rightarrow> int \<Rightarrow> 's \<Rightarrow> 's)
    \<Rightarrow> int \<Rightarrow> int \<Rightarrow> int \<Rightarrow> 's \<Rightarrow> 's option" where
  "line_loop x2 y2 dx dy sx sy callback x1 y1 err s =
     (if x1 \<noteq> x2 \<or> y1 \<noteq> y2 then
        let e2 = err * 2;
            err' = (if e2 > - dy then err - dy else err);
            x1' = (if e2 > - dy then x1 + sx else x1);
            err'' = (if e2 < dx then err' + dx else err');
            y1' = (if e2 < dx then y1 + sy else y1)
        in line_loop x2 y2 dx dy sx sy callback x1' y1' err'' (callback x1' y1' s)
      else Some s)"

definition forEachLinePoint ::
  "point \<Rightarrow> point \<Rightarrow> (int \<Rightarrow> int \<Rightarrow> 's \<Rightarrow> 's) \<Rightarrow> 's \<Rightarrow> 's option" where
  "forEachLinePoint point1 point2 callback s =
     (let x1 = toInt32 (point_x point1);
          x2 = toInt32 (point_x point2);
          y1 = toInt32 (point_y point1);
          y2 = toInt32 (point_y point2);
          dx = \<bar>x2 - x1\<bar>;
          dy = \<bar>y2 - y1\<bar>;
          sx = (if x1 < x2 then 1 else - 1);
          sy = (if y1 < y2 then 1 else - 1);
          err = dx - dy
      in line_loop x2 y2 dx dy sx sy callback x1 y1 err (callback x1 y1 s))"

text \<open>The callback that records every visited pixel, in order of the calls.\<close>

definition visit :: "int \<Rightarrow> int \<Rightarrow> (int \<times> int) list \<Rightarrow> (int \<times> int) list" where
  "visit x y visited = visited @ [(x, y)]"

text \<open>Two pixels at most one step apart on each axis.\<close>

definition adjacent8 :: "int \<times> int \<Rightarrow> int \<times> int \<Rightarrow> bool" where
  "adjacent8 p q = (\<bar>fst q - fst p\<bar> \<le> 1 \<and> \<bar>snd q - snd p\<bar> \<le> 1)"

text \<open>
  The remaining distances to the end point along the two axes, after each pass of the
  loop; \<open>n\<close> bounds the number of passes. The pixel visited at remaining distances
  \<open>(rx, ry)\<close> is \<open>(x2 - sx * rx, y2 - sy * ry)\<close>.
\<close>

fun rem_path :: "int \<Rightarrow> int \<Rightarrow> nat \<Rightarrow> int \<Rightarrow> int \<Rightarrow> int \<Rightarrow> (int \<times> int) list" where
  "rem_path dx dy 0 rx ry err = []"
| "rem_path dx dy (Suc n) rx ry err =
     (let e2 = err * 2;
          err' = (if e2 > - dy then err - dy else err);
          rx' = (if e2 > - dy then rx - 1 else rx);
          err'' = (if e2 < dx then err' + dx else err');
          ry' = (if e2 < dx then ry - 1 else ry)
      in (rx', ry') # rem_path dx dy n rx' ry' err'')"

text \<open>
  The loop invariant on the remaining distances: the error term is determined by
  them, the major axis steps on every pass, and the minor axis never runs ahead.
\<close>

definition line_inv :: "int \<Rightarrow> int \<Rightarrow> int \<Rightarrow> int \<Rightarrow> int \<Rightarrow> bool" where
  "line_inv dx dy rx ry err =
     (0 \<le> rx \<and> rx \<le> dx \<and> 0 \<le> ry \<and> ry \<le> dy \<and>
      err = dx - dy + dy * rx - dx * ry \<and>
      (if dy \<le> dx
       then ry \<le> rx \<and> (0 < dx \<longrightarrow> dy - 2 * dx < 2 * (dy * rx - dx * ry) \<and>
                                  2 * (dy * rx - dx * ry) < dx)
       else rx \<le> ry \<and> 2 * (dy * rx - dx * ry) < 2 * dy - dx))"

text \<open>One pass moves each remaining distance down by at most one.\<close>

definition rem_step :: "int \<times> int \<Rightarrow> int \<times> int \<Rightarrow> bool" where
  "rem_step p q = ((fst p - fst q = 0 \<or> fst p - fst q = 1) \<and> (snd p - snd q = 0 \<or> snd p - snd q = 1))"

text \<open>The pixels of a line, in the order \<^verbatim>\<open>forEachLinePoint\<close> visits them.\<close>

definition linePixels :: "point \<Rightarrow> point \<Rightarrow> (int \<times> int) list" where
  "linePixels point1 point2 =
     (let x1 = toInt32 (point_x point1);
          x2 = toInt32 (point_x point2);
          y1 = toInt32 (point_y point1);
          y2 = toInt32 (point_y point2);
          dx = \<bar>x2 - x1\<bar>;
          dy = \<bar>y2 - y1\<bar>;
          sx = (if x1 < x2 then 1 else - 1);
          sy = (if y1 < y2 then 1 else - 1)
      in (x1, y1) # map (\<lambda>(rx, ry). (x2 - sx * rx, y2 - sy * ry))
                      (rem_path dx dy (nat (max dx dy)) dx dy (dx - dy)))"

text \<open>Point reflection through the midpoint of two pixels.\<close>

definition reflect :: "int \<times> int \<Rightarrow> int \<times> int \<Rightarrow> int \<times> int \<Rightarrow> int \<times> int" where
  "reflect p q r = (fst p + fst q - fst r, snd p + snd q - snd r)"

text \<open>The pixel a point is truncated to by \<^verbatim>\<open>~~\<close>.\<close>

definition pixelOf :: "point \<Rightarrow> int \<times> int" where
  "pixelOf p = (toInt32 (point_x p), toInt32 (point_y p))"

text \<open>The signed 32-bit range, on which \<^verbatim>\<open>~~\<close> is plain truncation.\<close>

definition int32 :: "int \<Rightarrow> bool" where
  "int32 i = (- 2147483648 \<le> i \<and> i < 2147483648)"

section \<open>Pixel buffers\<close>

text \<open>
  An \<^verbatim>\<open>ImageData\<close>: \<open>width \<times> height\<close> pixels, row-major, four bytes per pixel
  (red, green, blue, alpha) in a \<^verbatim>\<open>Uint8ClampedArray\<close>. The private functions of the
  source end in an underscore (\<^verbatim>\<open>matchesColor_\<close>); here they stand without it.
\<close>

type_synonym byte = "8 word"

type_synonym color = "byte \<times> byte \<times> byte \<times> byte"

record imageData =
  width :: nat
  height :: nat
  data :: "byte list"

text \<open>
  Reading a typed array outside its range gives \<^verbatim>\<open>undefined\<close> (\<open>None\<close>), which is
  equal to no byte; writing outside its range does nothing.
\<close>

definition arrayGet :: "byte list \<Rightarrow> int \<Rightarrow> byte option" where
  "arrayGet d i = (if 0 \<le> i \<and> i < int (length d) then Some (d ! nat i) else None)"

definition arraySet :: "byte list \<Rightarrow> int \<Rightarrow> byte \<Rightarrow> byte list" where
  "arraySet d i v = (if 0 \<le> i \<and> i < int (length d) then d[nat i := v] else d)"

text \<open>
  The 2D context of a canvas, as far as the fill functions use it: the canvas holds
  the bitmap; \<^verbatim>\<open>getImageData(x, y, 1, 1).data\<close> reads one pixel, which is transparent
  black outside the canvas; \<^verbatim>\<open>getImageData(0, 0, canvas.width, canvas.height)\<close>
  copies the whole bitmap, and \<^verbatim>\<open>putImageData(imageData, 0, 0)\<close> with image data of
  the canvas's size replaces it.
\<close>

record context2d =
  canvas :: imageData

definition getImageData_pixel :: "context2d \<Rightarrow> int \<Rightarrow> int \<Rightarrow> color" where
  "getImageData_pixel context x y =
     (let c = canvas context;
          index = ((y * int (width c)) + x) * 4
      in if 0 \<le> x \<and> x < int (width c) \<and> 0 \<le> y \<and> y < int (height c) \<and>
            index + 3 < int (length (data c))
         then (data c ! nat index, data c ! nat (index + 1),
               data c ! nat (index + 2), data c ! nat (index + 3))
         else (0, 0, 0, 0))"

definition getImageData_canvas :: "context2d \<Rightarrow> imageData" where
  "getImageData_canvas context = canvas context"

definition putImageData :: "context2d \<Rightarrow> imageData \<Rightarrow> context2d" where
  "putImageData context imageData = context\<lparr>canvas := imageData\<rparr>"

section \<open>FloodFiller\<close>

definition getColor :: "int \<Rightarrow> int \<Rightarrow> context2d \<Rightarrow> color" where
  "getColor x y context = getImageData_pixel context x y"

definition matchesColor :: "int \<Rightarrow> int \<Rightarrow> imageData \<Rightarrow> color \<Rightarrow> bool" where
  "matchesColor x y imageData oldColor =
     (case oldColor of (r, g, b, a) \<Rightarrow>
        let index = ((y * int (width imageData)) + x) * 4
        in arrayGet (data imageData) (index + 0) = Some r \<and>
           arrayGet (data imageData) (index + 1) = Some g \<and>
           arrayGet (data imageData) (index + 2) = Some b \<and>
           arrayGet (data imageData) (index + 3) = Some a)"

definition colorPixel :: "int \<Rightarrow> int \<Rightarrow> imageData \<Rightarrow> color \<Rightarrow> imageData" where
  "colorPixel x y imageData newColor =
     (case newColor of (r, g, b, a) \<Rightarrow>
        let index = ((y * int (width imageData)) + x) * 4;
            d0 = arraySet (data imageData) (index + 0) r;
            d1 = arraySet d0 (index + 1) g;
            d2 = arraySet d1 (index + 2) b;
            d3 = arraySet d2 (index + 3) a
        in imageData\<lparr>data := d3\<rparr>)"

lemma height_colorPixel: "height (colorPixel x y imageData newColor) = height imageData"
  by (simp add: colorPixel_def Let_def split: prod.splits)

text \<open>
  \<^verbatim>\<open>floodFillInternal_\<close>, first loop: walk up while the pixel above matches.
\<close>

function walkUp :: "int \<Rightarrow> int \<Rightarrow> imageData \<Rightarrow> color \<Rightarrow> int" where
  "walkUp x y imageData oldColor =
     (if y > 0 \<and> matchesColor x (y - 1) imageData oldColor
      then walkUp x (y - 1) imageData oldColor
      else y)"
  by pat_completeness auto
termination
  by (relation "measure (\<lambda>(x, y, imageData, oldColor). nat y)") auto

text \<open>
  \<^verbatim>\<open>floodFillInternal_\<close>, second loop: scan down, recolor, and push the left and
  right neighbours where a run of matching neighbours starts. The stack is a list whose
  head is the top of the stack (the end of the array).
\<close>

function scanDown ::
  "int \<Rightarrow> color \<Rightarrow> color \<Rightarrow> int \<Rightarrow> imageData \<Rightarrow> (int \<times> int) list \<Rightarrow> bool \<Rightarrow> bool
    \<Rightarrow> imageData \<times> (int \<times> int) list" where
  "scanDown x newColor oldColor y imageData stack lastLeftMatchedColor lastRightMatchedColor =
     (if y < int (height imageData) then
        if \<not> matchesColor x y imageData oldColor then (imageData, stack)
        else
          let imageData' = colorPixel x y imageData newColor;
              stack1 =
                (if x > 0 then
                   if matchesColor (x - 1) y imageData' oldColor then
                     if \<not> lastLeftMatchedColor then (x - 1, y) # stack else stack
                   else stack
                 else stack);
              lastLeft =
                (if x > 0 then
                   if matchesColor (x - 1) y imageData' oldColor then
                     if \<not> lastLeftMatchedColor then True else lastLeftMatchedColor
                   else False
                 else lastLeftMatchedColor);
              stack2 =
                (if x < int (width imageData') - 1 then
                   if matchesColor (x + 1) y imageData' oldColor then
                     if \<not> lastRightMatchedColor then (x + 1, y) # stack1 else stack1
                   else stack1
                 else stack1);
              lastRight =
                (if x < int (width imageData') - 1 then
                   if matchesColor (x + 1) y imageData' oldColor then
                     if \<not> lastRightMatchedColor then True else lastRightMatchedColor
                   else False
                 else lastRightMatchedColor)
          in scanDown x newColor oldColor (y + 1) imageData' stack2 lastLeft lastRight
      else (imageData, stack))"
  by pat_completeness auto
termination
  by (relation "measure (\<lambda>(x, newColor, oldColor, y, imageData, r). nat (int (height imageData) - y))")
    (auto simp: height_colorPixel)

definition floodFillInternal ::
  "int \<Rightarrow> int \<Rightarrow> imageData \<Rightarrow> color \<Rightarrow> color \<Rightarrow> (int \<times> int) list
    \<Rightarrow> imageData \<times> (int \<times> int) list" where
  "floodFillInternal x y imageData newColor oldColor stack =
     scanDown x newColor oldColor (walkUp x y imageData oldColor) imageData stack False False"

text \<open>
  The loop of \<^verbatim>\<open>floodFill\<close>: pop a pixel, fill its column run, until the stack is
  empty. \<open>None\<close> stands for a loop that never leaves.
\<close>

partial_function (option) fill_loop ::
  "color \<Rightarrow> color \<Rightarrow> imageData \<Rightarrow> (int \<times> int) list \<Rightarrow> imageData option" where
  "fill_loop newColor oldColor imageData stack =
     (if stack \<noteq> [] then
        let pop = hd stack;
            r = floodFillInternal (fst pop) (snd pop) imageData newColor oldColor (tl stack)
        in fill_loop newColor oldColor (fst r) (snd r)
      else Some imageData)"

text \<open>
  \<^verbatim>\<open>fillStyleToColor_\<close> asks the browser to parse a colour string; it is a parameter
  here.
\<close>

definition floodFill ::
  "(string \<Rightarrow> color) \<Rightarrow> number \<Rightarrow> number \<Rightarrow> string \<Rightarrow> context2d \<Rightarrow> (bool \<times> context2d) option" where
  "floodFill fillStyleToColor x y color context =
     (let x = toInt32 x;
          y = toInt32 y;
          newColor = fillStyleToColor color;
          oldColor = getColor x y context;
          imageData = getImageData_canvas context
      in if oldColor = newColor then Some (False, context)
         else
           (case fill_loop newColor oldColor imageData [(x, y)] of
              None \<Rightarrow> None
            | Some imageData' \<Rightarrow> Some (True, putImageData context imageData')))"

definition floodFillAll ::
  "(string \<Rightarrow> color) \<Rightarrow> number \<Rightarrow> number \<Rightarrow> string \<Rightarrow> context2d \<Rightarrow> bool \<times> context2d" where
  "floodFillAll fillStyleToColor x y color context =
     (let x = toInt32 x;
          y = toInt32 y;
          newColor = fillStyleToColor color;
          oldColor = getColor x y context;
          imageData = getImageData_canvas context
      in if oldColor = newColor then (False, context)
         else
           (True, putImageData context
              (fold (\<lambda>i imageData.
                  fold (\<lambda>j imageData.
                      if matchesColor (int i) (int j) imageData oldColor
                      then colorPixel (int i) (int j) imageData newColor
                      else imageData)
                    [0..<height imageData] imageData)
                [0..<width imageData] imageData)))"

section \<open>Vocabulary for the fill properties\<close>

text \<open>A well-formed bitmap has four bytes for each of its pixels.\<close>

definition wf_image :: "imageData \<Rightarrow> bool" where
  "wf_image img = (length (data img) = 4 * width img * height img)"

definition inb :: "imageData \<Rightarrow> int \<times> int \<Rightarrow> bool" where
  "inb img p = (0 \<le> fst p \<and> fst p < int (width img) \<and> 0 \<le> snd p \<and> snd p < int (height img))"

text \<open>The four channel bytes of a pixel.\<close>

definition offset :: "imageData \<Rightarrow> int \<times> int \<Rightarrow> nat" where
  "offset img p = nat (((snd p * int (width img)) + fst p) * 4)"

definition pixel :: "imageData \<Rightarrow> int \<times> int \<Rightarrow> color" where
  "pixel img p =
     (data img ! offset img p, data img ! (offset img p + 1),
      data img ! (offset img p + 2), data img ! (offset img p + 3))"

definition adjacent4 :: "int \<times> int \<Rightarrow> int \<times> int \<Rightarrow> bool" where
  "adjacent4 p q =
     (fst p = fst q \<and> \<bar>snd p - snd q\<bar> = 1 \<or> snd p = snd q \<and> \<bar>fst p - fst q\<bar> = 1)"

text \<open>
  The 4-connected component of the seed: the pixels reached from the seed by steps to
  a 4-neighbour of exactly the seed's colour.
\<close>

inductive_set region :: "imageData \<Rightarrow> int \<times> int \<Rightarrow> (int \<times> int) set"
  for img :: imageData and seed :: "int \<times> int" where
  region_seed: "inb img seed \<Longrightarrow> seed \<in> region img seed"
| region_step: "p \<in> region img seed \<Longrightarrow> adjacent4 p q \<Longrightarrow> inb img q \<Longrightarrow>
      pixel img q = pixel img seed \<Longrightarrow> q \<in> region img seed"

text \<open>
  A canvas whose bitmap is well formed and has fewer than \<open>2^31\<close> bytes; browsers bound
  the area of a canvas well below that.
\<close>

definition wf_canvas :: "context2d \<Rightarrow> bool" where
  "wf_canvas context =
     (wf_image (canvas context) \<and> length (data (canvas context)) < 2147483648)"

text \<open>
  Rows \<open>lo..hi\<close> of column \<open>x\<close> all have the colour \<open>c\<close>.
\<close>

definition seg :: "imageData \<Rightarrow> color \<Rightarrow> int \<Rightarrow> int \<Rightarrow> int \<Rightarrow> bool" where
  "seg img c x lo hi = (\<forall>r. lo \<le> r \<and> r \<le> hi \<longrightarrow> pixel img (x, r) = c)"

text \<open>
  What the scan of rows \<open>y..<yb\<close> pushed for one neighbour column: \<open>m r\<close> says that
  the neighbour in row \<open>r\<close> matches, \<open>l\<close> is the flag on entry, \<open>S\<close> the rows pushed.
  Every matching neighbour is joined, through matching neighbours above it, to a pushed
  row, or to the first row when the flag was set on entry.
\<close>

definition cover :: "(int \<Rightarrow> bool) \<Rightarrow> bool \<Rightarrow> int \<Rightarrow> int \<Rightarrow> int set \<Rightarrow> bool" where
  "cover m l y yb S =
     (\<forall>r. y \<le> r \<and> r < yb \<and> m r \<longrightarrow>
        (l \<and> (\<forall>k. y \<le> k \<and> k \<le> r \<longrightarrow> m k)) \<or>
        (\<exists>r'. y \<le> r' \<and> r' \<le> r \<and> r' \<in> S \<and> (\<forall>k. r' \<le> k \<and> k \<le> r \<longrightarrow> m k)))"

text \<open>
  What one scan does, from row \<open>y\<close> of column \<open>x\<close> down to the row \<open>yb\<close> where it
  stops, with \<open>P\<close> the pixels it pushed: rows \<open>y..<yb\<close> had the old colour and get the
  new one, nothing else changes, and the pushed pixels are old-coloured neighbours that
  cover every old-coloured neighbour of the recoloured rows.
\<close>

definition scan_post ::
  "int \<Rightarrow> color \<Rightarrow> color \<Rightarrow> int \<Rightarrow> imageData \<Rightarrow> (int \<times> int) list \<Rightarrow> bool \<Rightarrow> bool
    \<Rightarrow> imageData \<times> (int \<times> int) list \<Rightarrow> int \<Rightarrow> (int \<times> int) list \<Rightarrow> bool" where
  "scan_post x new old y img stack ll lr res yb P =
     (y \<le> yb \<and> yb \<le> int (height img) \<and> seg img old x y (yb - 1) \<and>
      (yb < int (height img) \<longrightarrow> pixel img (x, yb) \<noteq> old) \<and>
      wf_image (fst res) \<and> width (fst res) = width img \<and> height (fst res) = height img \<and>
      (\<forall>q. inb img q \<longrightarrow>
         pixel (fst res) q = (if fst q = x \<and> y \<le> snd q \<and> snd q < yb then new else pixel img q)) \<and>
      snd res = P @ stack \<and>
      (\<forall>e \<in> set P. \<exists>r. y \<le> r \<and> r < yb \<and>
         (e = (x - 1, r) \<and> 0 < x \<or> e = (x + 1, r) \<and> x < int (width img) - 1) \<and>
         pixel img e = old) \<and>
      cover (\<lambda>r. 0 < x \<and> pixel img (x - 1, r) = old) ll y yb {r. (x - 1, r) \<in> set P} \<and>
      cover (\<lambda>r. x < int (width img) - 1 \<and> pixel img (x + 1, r) = old) lr y yb
        {r. (x + 1, r) \<in> set P})"

text \<open>
  A pixel is covered by the stack when a stack entry lies in its column and the
  vertical segment between the two had the old colour in the original bitmap.
\<close>

definition covered :: "imageData \<Rightarrow> color \<Rightarrow> (int \<times> int) list \<Rightarrow> int \<times> int \<Rightarrow> bool" where
  "covered img0 old stack q =
     (\<exists>e \<in> set stack. fst e = fst q \<and>
        seg img0 old (fst q) (min (snd e) (snd q)) (max (snd e) (snd q)))"

text \<open>
  The invariant of the loop of \<^verbatim>\<open>floodFill\<close>, for the original bitmap \<open>img0\<close> and
  the seed \<open>s\<close>: only pixels of the seed's component have changed, to the new colour;
  the stack holds pixels of the component; vertically adjacent pixels of the component
  are both filled or both not; an unfilled pixel of the component with a filled
  neighbour is covered by the stack, and so is the seed until it is filled.
\<close>

definition fill_inv ::
  "imageData \<Rightarrow> int \<times> int \<Rightarrow> color \<Rightarrow> imageData \<Rightarrow> (int \<times> int) list \<Rightarrow> bool" where
  "fill_inv img0 s new img stack =
     (inb img0 s \<and> wf_image img \<and> width img = width img0 \<and> height img = height img0 \<and>
      (\<forall>p. inb img0 p \<longrightarrow> pixel img p = pixel img0 p \<or> p \<in> region img0 s \<and> pixel img p = new) \<and>
      set stack \<subseteq> region img0 s \<and>
      (\<forall>p \<in> region img0 s. \<forall>q \<in> region img0 s.
         fst p = fst q \<and> \<bar>snd p - snd q\<bar> = 1 \<longrightarrow> (pixel img p = new) = (pixel img q = new)) \<and>
      (\<forall>q \<in> region img0 s. pixel img q = pixel img0 s \<longrightarrow>
         covered img0 (pixel img0 s) stack q \<or>
         (\<forall>p \<in> region img0 s. adjacent4 p q \<longrightarrow> pixel img p = pixel img0 s)) \<and>
      (pixel img s = new \<or> covered img0 (pixel img0 s) stack s))"

text \<open>The pixels that still have the old colour: the measure of the loop.\<close>

definition unfilled :: "imageData \<Rightarrow> color \<Rightarrow> imageData \<Rightarrow> (int \<times> int) set" where
  "unfilled img0 old img = {p. inb img0 p \<and> pixel img p = old}"


text \<open>
  A 5 by 5 example: a transparent pixel in the middle, a grey ring around it, and
  transparent pixels outside the ring.
\<close>

definition ring_image :: imageData where
  "ring_image = \<lparr>width = 5, height = 5, data =
     [0, 0, 0, 0,  0, 0, 0, 0,    0, 0, 0, 0,    0, 0, 0, 0,    0, 0, 0, 0,
      0, 0, 0, 0,  9, 9, 9, 255,  9, 9, 9, 255,  9, 9, 9, 255,  0, 0, 0, 0,
      0, 0, 0, 0,  9, 9, 9, 255,  0, 0, 0, 0,    9, 9, 9, 255,  0, 0, 0, 0,
      0, 0, 0, 0,  9, 9, 9, 255,  9, 9, 9, 255,  9, 9, 9, 255,  0, 0, 0, 0,
      0, 0, 0, 0,  0, 0, 0, 0,    0, 0, 0, 0,    0, 0, 0, 0,    0, 0, 0, 0]\<rparr>"

text \<open>A stand-in for the browser's colour parser that knows one colour.\<close>

definition parse_red :: "string \<Rightarrow> color" where
  "parse_red s = (if s = ''#ff0000'' then (255, 0, 0, 255) else (0, 0, 0, 0))"


section \<open>BoundsTrimmer: \<^verbatim>\<open>getHitBounds\<close>\<close>

text \<open>
  The shift \<^verbatim>\<open>v << 2\<close> of an integral number: a 32-bit operation, whose result is
  reduced modulo \<open>2^32\<close> into the signed range.
\<close>

definition shl2 :: "int \<Rightarrow> int" where
  "shl2 v = wrap32 (v * 4)"

text \<open>
  \<^verbatim>\<open>rowBlank_\<close> and \<^verbatim>\<open>columnBlank_\<close>: a row or a part of a column is blank when each
  alpha byte read \<^verbatim>\<open>=== 0\<close>; a read outside the array is \<^verbatim>\<open>undefined\<close> and so is
  not blank.
\<close>

definition rowBlank :: "imageData \<Rightarrow> nat \<Rightarrow> int \<Rightarrow> bool" where
  "rowBlank imageData w y =
     list_all (\<lambda>x. arrayGet (data imageData) (shl2 (y * int w) + shl2 (int x) + 3) = Some 0)
       [0..<w]"

definition columnBlank :: "imageData \<Rightarrow> nat \<Rightarrow> int \<Rightarrow> int \<Rightarrow> int \<Rightarrow> bool" where
  "columnBlank imageData w x top' bottom =
     list_all (\<lambda>y. arrayGet (data imageData) (shl2 (y * int w) + shl2 x + 3) = Some 0)
       [top'..bottom - 1]"

text \<open>
  A paper.js raster, as far as \<^verbatim>\<open>getHitBounds\<close> reads it: its \<^verbatim>\<open>width\<close> and the
  image data that \<^verbatim>\<open>getImageData(raster.bounds)\<close> returns.
\<close>

record raster =
  raster_width :: nat
  raster_imageData :: imageData

record rectangle =
  rect_x :: int
  rect_y :: int
  rect_width :: int
  rect_height :: int

text \<open>The four \<^verbatim>\<open>while\<close> loops of \<^verbatim>\<open>getHitBounds\<close>, in the order of the source.\<close>

function trimTop :: "imageData \<Rightarrow> nat \<Rightarrow> int \<Rightarrow> int \<Rightarrow> int" where
  "trimTop imageData w top' bottom =
     (if top' < bottom \<and> rowBlank imageData w top'
      then trimTop imageData w (top' + 1) bottom else top')"
  by pat_completeness auto
termination
  by (relation "measure (\<lambda>(imageData, w, top', bottom). nat (bottom - top'))") auto

function trimBottom :: "imageData \<Rightarrow> nat \<Rightarrow> int \<Rightarrow> int \<Rightarrow> int" where
  "trimBottom imageData w top' bottom =
     (if bottom - 1 > top' \<and> rowBlank imageData w (bottom - 1)
      then trimBottom imageData w top' (bottom - 1) else bottom)"
  by pat_completeness auto
termination
  by (relation "measure (\<lambda>(imageData, w, top', bottom). nat (bottom - top'))") auto

function trimLeft :: "imageData \<Rightarrow> nat \<Rightarrow> int \<Rightarrow> int \<Rightarrow> int \<Rightarrow> int \<Rightarrow> int" where
  "trimLeft imageData w top' bottom left right =
     (if left < right \<and> columnBlank imageData w left top' bottom
      then trimLeft imageData w top' bottom (left + 1) right else left)"
  by pat_completeness auto
termination
  by (relation "measure (\<lambda>(imageData, w, top', bottom, left, right). nat (right - left))") auto

function trimRight :: "imageData \<Rightarrow> nat \<Rightarrow> int \<Rightarrow> int \<Rightarrow> int \<Rightarrow> int \<Rightarrow> int" where
  "trimRight imageData w top' bottom left right =
     (if right - 1 > left \<and> columnBlank imageData w (right - 1) top' bottom
      then trimRight imageData w top' bottom left (right - 1) else right)"
  by pat_completeness auto
termination
  by (relation "measure (\<lambda>(imageData, w, top', bottom, left, right). nat (right - left))") auto

definition getHitBounds :: "raster \<Rightarrow> rectangle" where
  "getHitBounds raster =
     (let w = raster_width raster;
          imageData = raster_imageData raster;
          top' = trimTop imageData w 0 (int (height imageData));
          bottom = trimBottom imageData w top' (int (height imageData));
          left = trimLeft imageData w top' bottom 0 (int (width imageData));
          right = trimRight imageData w top' bottom left (int (width imageData))
      in \<lparr>rect_x = left, rect_y = top', rect_width = right - left, rect_height = bottom - top'\<rparr>)"

text \<open>
  A raster whose image data is a well-formed bitmap of the raster's width, with fewer
  than \<open>2^31\<close> bytes.
\<close>

definition wf_raster :: "raster \<Rightarrow> bool" where
  "wf_raster raster =
     (raster_width raster = width (raster_imageData raster) \<and>
      wf_image (raster_imageData raster) \<and>
      length (data (raster_imageData raster)) < 2147483648)"

text \<open>The pixels with a nonzero alpha byte.\<close>

definition alpha :: "color \<Rightarrow> byte" where
  "alpha c = (case c of (r, g, b, a) \<Rightarrow> a)"

definition opaque :: "imageData \<Rightarrow> (int \<times> int) set" where
  "opaque img = {p. inb img p \<and> alpha (pixel img p) \<noteq> 0}"

text \<open>A 5 by 6 example with one opaque pixel, at \<open>(3, 4)\<close>.\<close>

definition dot_raster :: raster where
  "dot_raster = \<lparr>raster_width = 5, raster_imageData = \<lparr>width = 5, height = 6, data =
     [0, 0, 0, 0,  0, 0, 0, 0,  0, 0, 0, 0,  0, 0, 0, 0,      0, 0, 0, 0,
      0, 0, 0, 0,  0, 0, 0, 0,  0, 0, 0, 0,  0, 0, 0, 0,      0, 0, 0, 0,
      0, 0, 0, 0,  0, 0, 0, 0,  0, 0, 0, 0,  0, 0, 0, 0,      0, 0, 0, 0,
      0, 0, 0, 0,  0, 0, 0, 0,  0, 0, 0, 0,  0, 0, 0, 0,      0, 0, 0, 0,
      0, 0, 0, 0,  0, 0, 0, 0,  0, 0, 0, 0,  7, 7, 7, 255,    0, 0, 0, 0,
      0, 0, 0, 0,  0, 0, 0, 0,  0, 0, 0, 0,  0, 0, 0, 0,      0, 0, 0, 0]\<rparr>\<rparr>"

text \<open>A fully transparent 3 by 2 example.\<close>

definition blank_raster :: raster where
  "blank_raster = \<lparr>raster_width = 3, raster_imageData =
     \<lparr>width = 3, height = 2, data = replicate 24 0\<rparr>\<rparr>"


section \<open>Arithmetic of JavaScript numbers\<close>

text \<open>
  A JavaScript number is an IEEE 754 binary64 value. A finite value is carried by
  \<^term>\<open>Num\<close> as the real number it denotes, and every arithmetic operation returns the
  exact result rounded to the nearest binary64 value, the one with an even significand
  when two are equally near, and an infinity when the rounded magnitude reaches
  \<open>2^1024\<close>. The sign of a zero is not recorded: a zero divisor counts as \<open>+0\<close>.
\<close>

definition infinity :: "bool \<Rightarrow> number" where
  "infinity positive = (if positive then PosInf else NegInf)"

text \<open>Powers of two with an integer exponent.\<close>

definition pow2 :: "int \<Rightarrow> real" where
  "pow2 e = (if 0 \<le> e then 2 ^ nat e else 1 / 2 ^ nat (- e))"

text \<open>The integer nearest to a real number, the even one of two equally near.\<close>

definition nearestEven :: "real \<Rightarrow> int" where
  "nearestEven q =
     (let n = \<lfloor>q\<rfloor>; d = q - of_int n
      in if d < 1 / 2 then n else if 1 / 2 < d then n + 1 else if even n then n else n + 1)"

text \<open>
  The binary exponent of a nonzero real number, not below the exponent \<open>-1022\<close> of the
  subnormal values.
\<close>

definition exponent :: "real \<Rightarrow> int" where
  "exponent r = max \<lfloor>log 2 \<bar>r\<bar>\<rfloor> (- 1022)"

text \<open>
  Rounding of a real number to binary64: the value is rounded to a multiple of the unit
  in the last of its 53 significant bits.
\<close>

definition roundTiesToEven :: "real \<Rightarrow> number" where
  "roundTiesToEven r =
     (if r = 0 then Num 0
      else
        let ulp = pow2 (exponent r - 52);
            x = of_int (nearestEven (r / ulp)) * ulp
        in if pow2 1024 \<le> \<bar>x\<bar> then infinity (0 < r) else Num x)"

text \<open>The real numbers that are binary64 values.\<close>

definition representable :: "real \<Rightarrow> bool" where
  "representable r = (roundTiesToEven r = Num r)"

instantiation number :: "{uminus, plus, minus, times, inverse, ord}"
begin

fun uminus_number :: "number \<Rightarrow> number" where
  "uminus_number (Num r) = Num (- r)"
| "uminus_number PosInf = NegInf"
| "uminus_number NegInf = PosInf"
| "uminus_number NaN = NaN"

fun plus_number :: "number \<Rightarrow> number \<Rightarrow> number" where
  "plus_number NaN v = NaN"
| "plus_number v NaN = NaN"
| "plus_number (Num r) (Num s) = roundTiesToEven (r + s)"
| "plus_number PosInf NegInf = NaN"
| "plus_number NegInf PosInf = NaN"
| "plus_number PosInf v = PosInf"
| "plus_number v PosInf = PosInf"
| "plus_number NegInf v = NegInf"
| "plus_number v NegInf = NegInf"

definition minus_number :: "number \<Rightarrow> number \<Rightarrow> number" where
  "minus_number u v = u + (- v)"

fun times_number :: "number \<Rightarrow> number \<Rightarrow> number" where
  "times_number NaN v = NaN"
| "times_number v NaN = NaN"
| "times_number (Num r) (Num s) = roundTiesToEven (r * s)"
| "times_number (Num r) PosInf = (if r = 0 then NaN else infinity (0 < r))"
| "times_number (Num r) NegInf = (if r = 0 then NaN else infinity (r < 0))"
| "times_number PosInf (Num s) = (if s = 0 then NaN else infinity (0 < s))"
| "times_number NegInf (Num s) = (if s = 0 then NaN else infinity (s < 0))"
| "times_number PosInf PosInf = PosInf"
| "times_number PosInf NegInf = NegInf"
| "times_number NegInf PosInf = NegInf"
| "times_number NegInf NegInf = PosInf"

fun divide_number :: "number \<Rightarrow> number \<Rightarrow> number" where
  "divide_number NaN v = NaN"
| "divide_number v NaN = NaN"
| "divide_number (Num r) (Num s) =
     (if s = 0 then (if r = 0 then NaN else infinity (0 < r)) else roundTiesToEven (r / s))"
| "divide_number (Num r) PosInf = Num 0"
| "divide_number (Num r) NegInf = Num 0"
| "divide_number PosInf (Num s) = infinity (0 \<le> s)"
| "divide_number NegInf (Num s) = infinity (s < 0)"
| "divide_number PosInf PosInf = NaN"
| "divide_number PosInf NegInf = NaN"
| "divide_number NegInf PosInf = NaN"
| "divide_number NegInf NegInf = NaN"

definition inverse_number :: "number \<Rightarrow> number" where
  "inverse_number v = divide (Num 1) v"

fun less_number :: "number \<Rightarrow> number \<Rightarrow> bool" where
  "less_number NaN v = False"
| "less_number v NaN = False"
| "less_number (Num r) (Num s) = (r < s)"
| "less_number (Num r) PosInf = True"
| "less_number (Num r) NegInf = False"
| "less_number PosInf v = False"
| "less_number NegInf NegInf = False"
| "less_number NegInf v = True"

definition less_eq_number :: "number \<Rightarrow> number \<Rightarrow> bool" where
  "less_eq_number u v = (u < v \<or> u = v \<and> u \<noteq> NaN)"

instance ..

end

text \<open>\<^verbatim>\<open>u === v\<close> on numbers: NaN is equal to nothing.\<close>

definition strictEq :: "number \<Rightarrow> number \<Rightarrow> bool" where
  "strictEq u v = (u = v \<and> u \<noteq> NaN)"

text \<open>A number in a condition: 0 and NaN count as false.\<close>

fun truthy :: "number \<Rightarrow> bool" where
  "truthy (Num r) = (r \<noteq> 0)"
| "truthy PosInf = True"
| "truthy NegInf = True"
| "truthy NaN = False"


fun Math_abs :: "number \<Rightarrow> number" where
  "Math_abs (Num r) = Num \<bar>r\<bar>"
| "Math_abs PosInf = PosInf"
| "Math_abs NegInf = PosInf"
| "Math_abs NaN = NaN"

fun Math_sqrt :: "number \<Rightarrow> number" where
  "Math_sqrt (Num r) = (if r < 0 then NaN else roundTiesToEven (sqrt r))"
| "Math_sqrt PosInf = PosInf"
| "Math_sqrt NegInf = NaN"
| "Math_sqrt NaN = NaN"

fun Math_floor :: "number \<Rightarrow> number" where
  "Math_floor (Num r) = Num (of_int \<lfloor>r\<rfloor>)"
| "Math_floor PosInf = PosInf"
| "Math_floor NegInf = NegInf"
| "Math_floor NaN = NaN"

section \<open>QuadraticSolver and EllipseRasterizer\<close>

text \<open>\<^verbatim>\<open>solveQuadratic_\<close>; the array of the two solutions is a pair.\<close>

definition solveQuadratic :: "number \<Rightarrow> number \<Rightarrow> number \<Rightarrow> number \<times> number" where
  "solveQuadratic a b c =
     (let soln1 = (- b + Math_sqrt ((b * b) - (Num 4 * a * c))) / Num 2 / a;
          soln2 = (- b - Math_sqrt ((b * b) - (Num 4 * a * c))) / Num 2 / a
      in if soln1 > soln2 then (soln1, soln2) else (soln2, soln1))"

text \<open>
  For the ellipse functions the drawing context is the list of the \<^verbatim>\<open>fillRect\<close> calls
  made on it, in order: the functions write through \<^verbatim>\<open>fillRect\<close> only.
\<close>

type_synonym drawing = "(number \<times> number \<times> number \<times> number) list"

definition fillRect :: "number \<Rightarrow> number \<Rightarrow> number \<Rightarrow> number \<Rightarrow> drawing \<Rightarrow> drawing" where
  "fillRect x y w h context = context @ [(x, y, w, h)]"

datatype error = TypeError

text \<open>The \<^verbatim>\<open>options\<close> object of \<^verbatim>\<open>drawShearedEllipse_\<close>.\<close>

record options =
  options_centerX :: number
  options_centerY :: number
  options_radiusX :: number
  options_radiusY :: number
  options_shearSlope :: number
  options_isFilled :: bool

text \<open>
  The loop of \<^verbatim>\<open>drawEllipseStepVertical_\<close>. The coefficients, the centre and the
  fill flag come from the enclosing function; \<open>p\<close> holds \<^verbatim>\<open>pY\<close>, \<^verbatim>\<open>pX1\<close>, \<^verbatim>\<open>pX2\<close>
  once they are assigned.
\<close>

partial_function (option) stepVertical_loop ::
  "number \<Rightarrow> number \<Rightarrow> number \<Rightarrow> bool \<Rightarrow> number \<Rightarrow> number \<Rightarrow> (number \<Rightarrow> number \<Rightarrow> bool)
    \<Rightarrow> number \<Rightarrow> number \<times> number \<Rightarrow> (number \<times> number \<times> number) option \<Rightarrow> drawing
    \<Rightarrow> ((number \<times> number \<times> number) option \<times> drawing) option" where
  "stepVertical_loop A B C isFilled centerX centerY conditionFn y x p context =
     (if conditionFn (fst x) y then
        let pY = Math_floor y;
            pX1 = Math_floor (fst x);
            pX2 = Math_floor (snd x);
            context' =
              (if isFilled then
                 fillRect (centerX + pX2) (centerY - pY - Num 1) (pX1 - pX2 + Num 1) (Num 1)
                   (fillRect (centerX - pX1 - Num 1) (centerY + pY) (pX1 - pX2 + Num 1) (Num 1)
                      context)
               else
                 fillRect (centerX + pX1) (centerY - pY - Num 1) (Num 1) (Num 1)
                   (fillRect (centerX - pX1 - Num 1) (centerY + pY) (Num 1) (Num 1) context));
            y' = y - Num 1;
            x' = solveQuadratic A (B * y') ((C * y' * y') - Num 1)
        in stepVertical_loop A B C isFilled centerX centerY conditionFn y' x'
             (Some (pY, pX1, pX2)) context'
      else Some (p, context))"

text \<open>
  \<^verbatim>\<open>drawEllipseStepVertical_\<close>: the last point drawn, or \<^verbatim>\<open>null\<close> (\<open>None\<close>) when
  nothing was drawn or both of its coordinates are 0.
\<close>

definition drawEllipseStepVertical ::
  "number \<Rightarrow> number \<Rightarrow> number \<Rightarrow> bool \<Rightarrow> number \<Rightarrow> number \<Rightarrow> number \<Rightarrow> (number \<Rightarrow> number \<Rightarrow> bool)
    \<Rightarrow> drawing \<Rightarrow> (point option \<times> drawing) option" where
  "drawEllipseStepVertical A B C isFilled centerX centerY startY conditionFn context =
     (case stepVertical_loop A B C isFilled centerX centerY conditionFn startY
             (solveQuadratic A (B * startY) ((C * startY * startY) - Num 1)) None context of
        None \<Rightarrow> None
      | Some (p, context') \<Rightarrow>
          Some (case p of
                  None \<Rightarrow> None
                | Some (pY, pX1, pX2) \<Rightarrow>
                    if truthy pX1 \<or> truthy pY then Some \<lparr>point_x = pX1, point_y = pY\<rparr> else None,
                context'))"

partial_function (option) stepHorizontal_loop ::
  "number \<Rightarrow> number \<Rightarrow> number \<Rightarrow> bool \<Rightarrow> number \<Rightarrow> number \<Rightarrow> (number \<Rightarrow> number \<Rightarrow> bool)
    \<Rightarrow> number \<Rightarrow> number \<times> number \<Rightarrow> (number \<times> number \<times> number) option \<Rightarrow> drawing
    \<Rightarrow> ((number \<times> number \<times> number) option \<times> drawing) option" where
  "stepHorizontal_loop A B C isFilled centerX centerY conditionFn x y p context =
     (if conditionFn x (fst y) then
        let pX = Math_floor x;
            pY1 = Math_floor (fst y);
            pY2 = Math_floor (snd y);
            context' =
              (if isFilled then
                 fillRect (centerX + pX) (centerY - pY1 - Num 1) (Num 1) (pY1 - pY2 + Num 1)
                   (fillRect (centerX - pX - Num 1) (centerY + pY2) (Num 1) (pY1 - pY2 + Num 1)
                      context)
               else
                 fillRect (centerX + pX) (centerY - pY1 - Num 1) (Num 1) (Num 1)
                   (fillRect (centerX - pX - Num 1) (centerY + pY1) (Num 1) (Num 1) context));
            x' = x + Num 1;
            y' = solveQuadratic C (B * x') ((A * x' * x') - Num 1)
        in stepHorizontal_loop A B C isFilled centerX centerY conditionFn x' y'
             (Some (pX, pY1, pY2)) context'
      else Some (p, context))"

definition drawEllipseStepHorizontal ::
  "number \<Rightarrow> number \<Rightarrow> number \<Rightarrow> bool \<Rightarrow> number \<Rightarrow> number \<Rightarrow> number \<Rightarrow> (number \<Rightarrow> number \<Rightarrow> bool)
    \<Rightarrow> drawing \<Rightarrow> (point option \<times> drawing) option" where
  "drawEllipseStepHorizontal A B C isFilled centerX centerY startX conditionFn context =
     (case stepHorizontal_loop A B C isFilled centerX centerY conditionFn startX
             (solveQuadratic C (B * startX) ((A * startX * startX) - Num 1)) None context of
        None \<Rightarrow> None
      | Some (p, context') \<Rightarrow>
          Some (case p of
                  None \<Rightarrow> None
                | Some (pX, pY1, pY2) \<Rightarrow>
                    if truthy pX \<or> truthy pY1 then Some \<lparr>point_x = pX, point_y = pY1\<rparr> else None,
                context'))"

text \<open>
  \<^verbatim>\<open>drawShearedEllipse_\<close>. The result is \<open>None\<close> when a loop never leaves, a
  \<^verbatim>\<open>TypeError\<close> when a coordinate of \<^verbatim>\<open>null\<close> is read, and otherwise the returned
  flag with the drawing context.
\<close>

definition drawShearedEllipse :: "options \<Rightarrow> drawing \<Rightarrow> (error + bool \<times> drawing) option" where
  "drawShearedEllipse options context =
     (let centerX = Num (of_int (toInt32 (options_centerX options)));
          centerY = Num (of_int (toInt32 (options_centerY options)));
          radiusX = Num (of_int (toInt32 (Math_abs (options_radiusX options)))) - Num (1 / 2);
          radiusY = Num (of_int (toInt32 (Math_abs (options_radiusY options)))) - Num (1 / 2);
          shearSlope = options_shearSlope options;
          isFilled = options_isFilled options
      in if strictEq shearSlope PosInf \<or> radiusX < Num 1 \<or> radiusY < Num 1
         then Some (Inr (False, context))
         else
           let A = (Num 1 / radiusX / radiusX) + (shearSlope * shearSlope / radiusY / radiusY);
               B = - Num 2 * shearSlope / radiusY / radiusY;
               C = Num 1 / radiusY / radiusY;
               slope1 = ((- Num 2 * A) - B) / ((Num 2 * C) + B);
               slope2 = (- (Num 2 * A) + B) / (- (Num 2 * C) + B);
               verticalStepsFirst = slope1 > slope2;
               steep = (\<lambda>x y.
                 if strictEq x (Num 0) \<and> y > Num 0 then True
                 else if strictEq x (Num 0) \<and> y < Num 0 then False
                 else y / x > slope1);
               flat = (\<lambda>x y. y / x > slope2)
           in if verticalStepsFirst then
                let forwardLeaning = slope1 > Num 0 in
                (case drawEllipseStepVertical A B C isFilled centerX centerY
                        (if forwardLeaning then - radiusY else radiusY) steep context of
                   None \<Rightarrow> None
                 | Some (lastPoint, context1) \<Rightarrow>
                     (case drawEllipseStepHorizontal A B C isFilled centerX centerY
                             (case lastPoint of
                                Some p \<Rightarrow> - point_x p + Num (1 / 2)
                              | None \<Rightarrow> Num (1 / 2))
                             flat context1 of
                        None \<Rightarrow> None
                      | Some (stepped, context2) \<Rightarrow>
                          (case (case stepped of
                                   Some p \<Rightarrow> Inr p
                                 | None \<Rightarrow>
                                     (case lastPoint of
                                        None \<Rightarrow> Inl TypeError
                                      | Some p \<Rightarrow>
                                          Inr \<lparr>point_x = - point_x p - Num (1 / 2),
                                               point_y = - point_y p - Num (1 / 2)\<rparr>)) of
                             Inl e \<Rightarrow> Some (Inl e)
                           | Inr lastPoint' \<Rightarrow>
                               (case drawEllipseStepVertical A B C isFilled centerX centerY
                                       (point_y lastPoint' - Num (1 / 2))
                                       (\<lambda>x y. if forwardLeaning then y > - radiusY else y > radiusY)
                                       context2 of
                                  None \<Rightarrow> None
                                | Some (closing, context3) \<Rightarrow> Some (Inr (True, context3))))))
              else
                (case drawEllipseStepHorizontal A B C isFilled centerX centerY (Num (1 / 2)) flat
                        context of
                   None \<Rightarrow> None
                 | Some (lastPoint, context1) \<Rightarrow>
                     (case drawEllipseStepVertical A B C isFilled centerX centerY
                             (case lastPoint of
                                Some p \<Rightarrow> point_y p - Num (1 / 2)
                              | None \<Rightarrow> radiusY)
                             steep context1 of
                        None \<Rightarrow> None
                      | Some (stepped, context2) \<Rightarrow>
                          (case (case stepped of Some p \<Rightarrow> Some p | None \<Rightarrow> lastPoint) of
                             None \<Rightarrow> Some (Inl TypeError)
                           | Some lastPoint' \<Rightarrow>
                               (case drawEllipseStepHorizontal A B C isFilled centerX centerY
                                       (- point_x lastPoint' + Num (1 / 2))
                                       (\<lambda>x y. x < Num 0) context2 of
                                  None \<Rightarrow> None
                                | Some (closing, context3) \<Rightarrow> Some (Inr (True, context3)))))))"

text \<open>
  \<^verbatim>\<open>drawEllipse\<close>. The matrix is a paper.js object: its invertibility test and its
  inversion are parameters.
\<close>

record matrix =
  matrix_a :: number
  matrix_b :: number
  matrix_c :: number
  matrix_d :: number
  matrix_tx :: number
  matrix_ty :: number

definition drawEllipse ::
  "(matrix \<Rightarrow> bool) \<Rightarrow> (matrix \<Rightarrow> matrix) \<Rightarrow> number \<Rightarrow> number \<Rightarrow> number \<Rightarrow> number \<Rightarrow> matrix \<Rightarrow> bool
    \<Rightarrow> drawing \<Rightarrow> (error + bool \<times> drawing) option" where
  "drawEllipse isInvertible invert positionX positionY radiusX radiusY matrix isFilled context =
     (if \<not> isInvertible matrix then Some (Inr (False, context))
      else
        let inverse = invert matrix;
            A = (matrix_a inverse * matrix_a inverse / radiusX / radiusX) +
                (matrix_b inverse * matrix_b inverse / radiusY / radiusY);
            B = (Num 2 * matrix_a inverse * matrix_c inverse / radiusX / radiusX) +
                (Num 2 * matrix_b inverse * matrix_d inverse / radiusY / radiusY);
            C = (matrix_c inverse * matrix_c inverse / radiusX / radiusX) +
                (matrix_d inverse * matrix_d inverse / radiusY / radiusY);
            radiusB = Num 1 / Math_sqrt C;
            radiusA = Math_sqrt (- Num 4 * C / ((B * B) - (Num 4 * A * C)));
            slope = B / Num 2 / C
        in drawShearedEllipse
             \<lparr>options_centerX = positionX, options_centerY = positionY,
              options_radiusX = radiusA, options_radiusY = radiusB,
              options_shearSlope = slope, options_isFilled = isFilled\<rparr> context)"


section \<open>Properties of the line rasterizer\<close>

lemma mult_ge_self: "(0::int) \<le> c \<Longrightarrow> 1 \<le> r \<Longrightarrow> c \<le> c * r"
  using mult_left_mono [of 1 r c] by simp

lemma line_inv_step:
  assumes inv: "line_inv dx dy rx ry err" and pos: "0 < max rx ry"
  defines "e2 \<equiv> err * 2"
  defines "err' \<equiv> (if e2 > - dy then err - dy else err)"
  defines "rx' \<equiv> (if e2 > - dy then rx - 1 else rx)"
  defines "err'' \<equiv> (if e2 < dx then err' + dx else err')"
  defines "ry' \<equiv> (if e2 < dx then ry - 1 else ry)"
  shows "line_inv dx dy rx' ry' err'' \<and> max rx' ry' = max rx ry - 1"
proof (cases "dy \<le> dx")
  case True
  from inv True have b: "0 \<le> rx" "rx \<le> dx" "0 \<le> ry" "ry \<le> dy" "ry \<le> rx"
    and e: "err = dx - dy + dy * rx - dx * ry"
    by (simp_all add: line_inv_def)
  from pos b have rxpos: "1 \<le> rx" by simp
  with b have dxpos: "0 < dx" by simp
  with inv True have lo: "dy - 2 * dx < 2 * (dy * rx - dx * ry)"
    and hi: "2 * (dy * rx - dx * ry) < dx"
    by (simp_all add: line_inv_def)
  have dy0: "0 \<le> dy" using b by simp
  have stepx: "e2 > - dy" using lo e by (simp add: e2_def)
  have nl1: "dy \<le> dy * rx" using mult_ge_self [OF dy0 rxpos] .
  have nl2: "dx - dy \<le> (dx - dy) * rx"
    using mult_ge_self [of "dx - dy" rx] True rxpos by simp
  show ?thesis
  proof (cases "e2 < dx")
    case stepy: True
    have "ry \<noteq> 0"
    proof
      assume "ry = 0"
      with e have "e2 = 2 * (dx - dy + dy * rx)" by (simp add: e2_def)
      with nl1 stepy dxpos show False by simp
    qed
    with b have rypos: "1 \<le> ry" by simp
    have r: "rx' = rx - 1" "ry' = ry - 1" "err'' = err - dy + dx"
      using stepx stepy by (simp_all add: rx'_def ry'_def err'_def err''_def)
    have "line_inv dx dy (rx - 1) (ry - 1) (err - dy + dx)"
      unfolding line_inv_def using b e lo hi True dxpos rxpos rypos stepy
      by (simp add: algebra_simps e2_def)
    moreover have "max (rx - 1) (ry - 1) = max rx ry - 1" by simp
    ultimately show ?thesis by (simp add: r)
  next
    case nostepy: False
    have "ry \<noteq> rx"
    proof
      assume "ry = rx"
      with e have "e2 = 2 * (dx - dy) - 2 * ((dx - dy) * rx)"
        by (simp add: e2_def algebra_simps)
      with nl2 nostepy dxpos show False by simp
    qed
    with b have lt: "ry < rx" by simp
    have r: "rx' = rx - 1" "ry' = ry" "err'' = err - dy"
      using stepx nostepy by (simp_all add: rx'_def ry'_def err'_def err''_def)
    have "line_inv dx dy (rx - 1) ry (err - dy)"
      unfolding line_inv_def using b e lo hi True dxpos rxpos lt nostepy
      by (simp add: algebra_simps e2_def)
    moreover have "max (rx - 1) ry = max rx ry - 1" using lt by simp
    ultimately show ?thesis by (simp add: r)
  qed
next
  case False
  from inv False have b: "0 \<le> rx" "rx \<le> dx" "0 \<le> ry" "ry \<le> dy" "rx \<le> ry"
    and e: "err = dx - dy + dy * rx - dx * ry"
    and hi: "2 * (dy * rx - dx * ry) < 2 * dy - dx"
    by (simp_all add: line_inv_def)
  from pos b have rypos: "1 \<le> ry" by simp
  have dx0: "0 \<le> dx" using b by simp
  have stepy: "e2 < dx" using hi e by (simp add: e2_def)
  have nl1: "dx \<le> dx * ry" using mult_ge_self [OF dx0 rypos] .
  have nl2: "dy - dx \<le> (dy - dx) * ry"
    using mult_ge_self [of "dy - dx" ry] False rypos by simp
  show ?thesis
  proof (cases "e2 > - dy")
    case stepx: True
    have "rx \<noteq> 0"
    proof
      assume "rx = 0"
      with e have "e2 = 2 * (dx - dy - dx * ry)" by (simp add: e2_def)
      with nl1 stepx False dx0 show False by simp
    qed
    with b have rxpos: "1 \<le> rx" by simp
    have r: "rx' = rx - 1" "ry' = ry - 1" "err'' = err - dy + dx"
      using stepx stepy by (simp_all add: rx'_def ry'_def err'_def err''_def)
    have "line_inv dx dy (rx - 1) (ry - 1) (err - dy + dx)"
      unfolding line_inv_def using b e hi False dx0 rxpos rypos stepx
      by (simp add: algebra_simps e2_def)
    moreover have "max (rx - 1) (ry - 1) = max rx ry - 1" by simp
    ultimately show ?thesis by (simp add: r)
  next
    case nostepx: False
    have "rx \<noteq> ry"
    proof
      assume "rx = ry"
      define P where "P = (dy - dx) * ry"
      from \<open>rx = ry\<close> e have "e2 = 2 * P - 2 * (dy - dx)"
        by (simp add: e2_def P_def algebra_simps)
      moreover from nl2 have "dy - dx \<le> P" by (simp only: P_def)
      ultimately show False using nostepx \<open>\<not> dy \<le> dx\<close> dx0 by presburger
    qed
    with b have lt: "rx < ry" by simp
    have r: "rx' = rx" "ry' = ry - 1" "err'' = err + dx"
      using stepy nostepx by (simp_all add: rx'_def ry'_def err'_def err''_def)
    have "line_inv dx dy rx (ry - 1) (err + dx)"
      unfolding line_inv_def using b e hi \<open>\<not> dy \<le> dx\<close> dx0 rypos lt nostepx
      by (simp add: algebra_simps e2_def)
    moreover have "max rx (ry - 1) = max rx ry - 1" using lt by simp
    ultimately show ?thesis by (simp add: r)
  qed
qed


lemma line_loop_path:
  assumes sx: "sx = 1 \<or> sx = - 1" and sy: "sy = 1 \<or> sy = - 1"
  shows "line_inv dx dy rx ry err \<Longrightarrow> n = nat (max rx ry) \<Longrightarrow>
     line_loop x2 y2 dx dy sx sy cb (x2 - sx * rx) (y2 - sy * ry) err s =
     Some (fold (\<lambda>(rx, ry). cb (x2 - sx * rx) (y2 - sy * ry)) (rem_path dx dy n rx ry err) s)"
proof (induction n arbitrary: rx ry err s)
  case 0
  then have "rx = 0" "ry = 0" by (simp_all add: line_inv_def)
  then show ?case by (subst line_loop.simps) simp
next
  case (Suc n)
  define e2 where "e2 = err * 2"
  define err' where "err' = (if e2 > - dy then err - dy else err)"
  define rx' where "rx' = (if e2 > - dy then rx - 1 else rx)"
  define err'' where "err'' = (if e2 < dx then err' + dx else err')"
  define ry' where "ry' = (if e2 < dx then ry - 1 else ry)"
  from Suc.prems have pos: "0 < max rx ry" by linarith
  have inv': "line_inv dx dy rx' ry' err''" and m: "max rx' ry' = max rx ry - 1"
    using line_inv_step [OF Suc.prems(1) pos]
    unfolding e2_def err'_def rx'_def err''_def ry'_def by blast+
  from m Suc.prems(2) have n: "n = nat (max rx' ry')" by simp
  from Suc.prems(1) pos have "rx \<noteq> 0 \<or> ry \<noteq> 0" by auto
  with sx sy have cond: "x2 - sx * rx \<noteq> x2 \<or> y2 - sy * ry \<noteq> y2" by auto
  have "line_loop x2 y2 dx dy sx sy cb (x2 - sx * rx) (y2 - sy * ry) err s =
        line_loop x2 y2 dx dy sx sy cb (x2 - sx * rx') (y2 - sy * ry') err''
          (cb (x2 - sx * rx') (y2 - sy * ry') s)"
    using cond
    by (subst line_loop.simps)
      (simp add: Let_def e2_def err'_def err''_def rx'_def ry'_def algebra_simps)
  also have "\<dots> = Some (fold (\<lambda>(rx, ry). cb (x2 - sx * rx) (y2 - sy * ry))
        (rem_path dx dy n rx' ry' err'') (cb (x2 - sx * rx') (y2 - sy * ry') s))"
    by (rule Suc.IH [OF inv' n])
  also have "\<dots> = Some (fold (\<lambda>(rx, ry). cb (x2 - sx * rx) (y2 - sy * ry))
        (rem_path dx dy (Suc n) rx ry err) s)"
    by (simp add: Let_def e2_def err'_def err''_def rx'_def ry'_def)
  finally show ?case .
qed

lemma rem_path_props:
  "line_inv dx dy rx ry err \<Longrightarrow> n = nat (max rx ry) \<Longrightarrow>
     length (rem_path dx dy n rx ry err) = n \<and>
     last ((rx, ry) # rem_path dx dy n rx ry err) = (0, 0) \<and>
     (\<forall>p \<in> set (rem_path dx dy n rx ry err). 0 \<le> fst p \<and> fst p \<le> dx \<and> 0 \<le> snd p \<and> snd p \<le> dy) \<and>
     successively rem_step ((rx, ry) # rem_path dx dy n rx ry err)"
proof (induction n arbitrary: rx ry err)
  case 0
  then have "rx = 0" "ry = 0" by (simp_all add: line_inv_def)
  then show ?case by simp
next
  case (Suc n)
  define e2 where "e2 = err * 2"
  define err' where "err' = (if e2 > - dy then err - dy else err)"
  define rx' where "rx' = (if e2 > - dy then rx - 1 else rx)"
  define err'' where "err'' = (if e2 < dx then err' + dx else err')"
  define ry' where "ry' = (if e2 < dx then ry - 1 else ry)"
  from Suc.prems have pos: "0 < max rx ry" by linarith
  have inv': "line_inv dx dy rx' ry' err''" and m: "max rx' ry' = max rx ry - 1"
    using line_inv_step [OF Suc.prems(1) pos]
    unfolding e2_def err'_def rx'_def err''_def ry'_def by blast+
  from m Suc.prems(2) have n: "n = nat (max rx' ry')" by simp
  have unf: "rem_path dx dy (Suc n) rx ry err = (rx', ry') # rem_path dx dy n rx' ry' err''"
    by (simp add: Let_def e2_def err'_def err''_def rx'_def ry'_def)
  have st: "rem_step (rx, ry) (rx', ry')"
    by (simp add: rem_step_def rx'_def ry'_def)
  have b: "0 \<le> rx' \<and> rx' \<le> dx \<and> 0 \<le> ry' \<and> ry' \<le> dy"
    using inv' by (simp add: line_inv_def)
  from Suc.IH [OF inv' n] st b show ?case
    unfolding unf by simp
qed

lemma line_inv_init: "0 \<le> dx \<Longrightarrow> 0 \<le> dy \<Longrightarrow> line_inv dx dy dx dy (dx - dy)"
  by (simp add: line_inv_def)

lemma forEachLinePoint_fold:
  "forEachLinePoint point1 point2 cb s = Some (fold (\<lambda>(x, y). cb x y) (linePixels point1 point2) s)"
proof -
  define x1 where "x1 = toInt32 (point_x point1)"
  define x2 where "x2 = toInt32 (point_x point2)"
  define y1 where "y1 = toInt32 (point_y point1)"
  define y2 where "y2 = toInt32 (point_y point2)"
  define dx where "dx = \<bar>x2 - x1\<bar>"
  define dy where "dy = \<bar>y2 - y1\<bar>"
  define sx :: int where "sx = (if x1 < x2 then 1 else - 1)"
  define sy :: int where "sy = (if y1 < y2 then 1 else - 1)"
  have sx: "sx = 1 \<or> sx = - 1" and sy: "sy = 1 \<or> sy = - 1"
    by (simp_all add: sx_def sy_def)
  have x1: "x1 = x2 - sx * dx" and y1: "y1 = y2 - sy * dy"
    by (simp_all add: sx_def sy_def dx_def dy_def)
  have inv: "line_inv dx dy dx dy (dx - dy)"
    by (rule line_inv_init) (simp_all add: dx_def dy_def)
  have "forEachLinePoint point1 point2 cb s =
        line_loop x2 y2 dx dy sx sy cb (x2 - sx * dx) (y2 - sy * dy) (dx - dy) (cb x1 y1 s)"
    unfolding forEachLinePoint_def Let_def x1 [symmetric] y1 [symmetric]
    by (simp only: x1_def x2_def y1_def y2_def dx_def dy_def sx_def sy_def)
  also have "\<dots> = Some (fold (\<lambda>(rx, ry). cb (x2 - sx * rx) (y2 - sy * ry))
        (rem_path dx dy (nat (max dx dy)) dx dy (dx - dy)) (cb x1 y1 s))"
    by (rule line_loop_path [OF sx sy inv refl])
  also have "\<dots> = Some (fold (\<lambda>(x, y). cb x y) (linePixels point1 point2) s)"
    unfolding linePixels_def Let_def
    by (simp add: fold_map comp_def case_prod_unfold x1_def x2_def y1_def y2_def dx_def dy_def sx_def sy_def)
  finally show ?thesis .
qed

lemma fold_visit: "fold (\<lambda>(x, y). visit x y) ps acc = acc @ ps"
  by (induction ps arbitrary: acc) (auto simp: visit_def)

lemma forEachLinePoint_visit: "forEachLinePoint point1 point2 visit [] = Some (linePixels point1 point2)"
  by (simp add: forEachLinePoint_fold fold_visit)

lemma rem_step_adjacent8:
  assumes "sx = 1 \<or> sx = - 1" "sy = 1 \<or> sy = - 1" "rem_step p q"
  shows "adjacent8 (x2 - sx * fst p, y2 - sy * snd p) (x2 - sx * fst q, y2 - sy * snd q)"
proof -
  have "\<bar>(x2 - sx * fst q) - (x2 - sx * fst p)\<bar> = \<bar>sx * (fst p - fst q)\<bar>"
    by (simp add: algebra_simps)
  moreover have "\<bar>(y2 - sy * snd q) - (y2 - sy * snd p)\<bar> = \<bar>sy * (snd p - snd q)\<bar>"
    by (simp add: algebra_simps)
  ultimately show ?thesis
    using assms unfolding adjacent8_def rem_step_def fst_conv snd_conv
    by (auto simp: abs_mult)
qed

lemma linePixels_props:
  defines "dx \<equiv> \<lambda>p q. \<bar>toInt32 (point_x q) - toInt32 (point_x p)\<bar>"
  defines "dy \<equiv> \<lambda>p q. \<bar>toInt32 (point_y q) - toInt32 (point_y p)\<bar>"
  shows "length (linePixels point1 point2) = nat (max (dx point1 point2) (dy point1 point2)) + 1"
    and "hd (linePixels point1 point2) = pixelOf point1"
    and "last (linePixels point1 point2) = pixelOf point2"
    and "successively adjacent8 (linePixels point1 point2)"
proof -
  define x1 where "x1 = toInt32 (point_x point1)"
  define x2 where "x2 = toInt32 (point_x point2)"
  define y1 where "y1 = toInt32 (point_y point1)"
  define y2 where "y2 = toInt32 (point_y point2)"
  define ddx where "ddx = \<bar>x2 - x1\<bar>"
  define ddy where "ddy = \<bar>y2 - y1\<bar>"
  define sx :: int where "sx = (if x1 < x2 then 1 else - 1)"
  define sy :: int where "sy = (if y1 < y2 then 1 else - 1)"
  define R where "R = rem_path ddx ddy (nat (max ddx ddy)) ddx ddy (ddx - ddy)"
  define f where "f = (\<lambda>(rx, ry). (x2 - sx * rx, y2 - sy * ry))"
  have sx: "sx = 1 \<or> sx = - 1" and sy: "sy = 1 \<or> sy = - 1"
    by (simp_all add: sx_def sy_def)
  have x1: "x1 = x2 - sx * ddx" and y1: "y1 = y2 - sy * ddy"
    by (simp_all add: sx_def sy_def ddx_def ddy_def)
  have inv: "line_inv ddx ddy ddx ddy (ddx - ddy)"
    by (rule line_inv_init) (simp_all add: ddx_def ddy_def)
  have lp: "linePixels point1 point2 = map f ((ddx, ddy) # R)"
    unfolding linePixels_def Let_def R_def f_def
    by (simp add: x1 [symmetric] y1 [symmetric])
      (simp add: x1_def x2_def y1_def y2_def ddx_def ddy_def sx_def sy_def)
  from rem_path_props [OF inv refl]
  have len: "length R = nat (max ddx ddy)" and lst: "last ((ddx, ddy) # R) = (0, 0)"
    and suc: "successively rem_step ((ddx, ddy) # R)"
    unfolding R_def by blast+
  show "length (linePixels point1 point2) = nat (max (dx point1 point2) (dy point1 point2)) + 1"
    unfolding lp using len
    by (simp add: dx_def dy_def ddx_def ddy_def x1_def x2_def y1_def y2_def)
  show "hd (linePixels point1 point2) = pixelOf point1"
    unfolding lp by (simp add: f_def x1 [symmetric] y1 [symmetric] pixelOf_def x1_def y1_def)
  have "last (map f ((ddx, ddy) # R)) = f (last ((ddx, ddy) # R))"
    by (rule last_map) simp
  then show "last (linePixels point1 point2) = pixelOf point2"
    unfolding lp lst by (simp add: f_def pixelOf_def x2_def y2_def)
  have "successively (\<lambda>p q. adjacent8 (f p) (f q)) ((ddx, ddy) # R)"
    by (rule successively_mono [OF suc])
      (simp add: f_def case_prod_unfold rem_step_adjacent8 [OF sx sy])
  then show "successively adjacent8 (linePixels point1 point2)"
    unfolding lp by (simp only: successively_map)
qed

lemma linePixels_reverse:
  "linePixels point2 point1 = map (reflect (pixelOf point1) (pixelOf point2)) (linePixels point1 point2)"
proof -
  define x1 where "x1 = toInt32 (point_x point1)"
  define x2 where "x2 = toInt32 (point_x point2)"
  define y1 where "y1 = toInt32 (point_y point1)"
  define y2 where "y2 = toInt32 (point_y point2)"
  define ddx where "ddx = \<bar>x2 - x1\<bar>"
  define ddy where "ddy = \<bar>y2 - y1\<bar>"
  define sx :: int where "sx = (if x1 < x2 then 1 else - 1)"
  define sy :: int where "sy = (if y1 < y2 then 1 else - 1)"
  define sx' :: int where "sx' = (if x2 < x1 then 1 else - 1)"
  define sy' :: int where "sy' = (if y2 < y1 then 1 else - 1)"
  define R where "R = rem_path ddx ddy (nat (max ddx ddy)) ddx ddy (ddx - ddy)"
  have inv: "line_inv ddx ddy ddx ddy (ddx - ddy)"
    by (rule line_inv_init) (simp_all add: ddx_def ddy_def)
  from rem_path_props [OF inv refl]
  have bnd: "\<forall>p \<in> set R. 0 \<le> fst p \<and> fst p \<le> ddx \<and> 0 \<le> snd p \<and> snd p \<le> ddy"
    unfolding R_def by blast
  have fwd: "linePixels point1 point2 = (x1, y1) # map (\<lambda>(rx, ry). (x2 - sx * rx, y2 - sy * ry)) R"
    unfolding linePixels_def Let_def R_def
    by (simp add: x1_def x2_def y1_def y2_def ddx_def ddy_def sx_def sy_def)
  have "\<bar>x1 - x2\<bar> = ddx" "\<bar>y1 - y2\<bar> = ddy" by (simp_all add: ddx_def ddy_def)
  then have bwd: "linePixels point2 point1 = (x2, y2) # map (\<lambda>(rx, ry). (x1 - sx' * rx, y1 - sy' * ry)) R"
    unfolding linePixels_def Let_def R_def
    by (simp add: x1_def [symmetric] x2_def [symmetric] y1_def [symmetric] y2_def [symmetric]
        sx'_def sy'_def)
  have pt: "(x1 - sx' * fst p, y1 - sy' * snd p) =
            reflect (x1, y1) (x2, y2) (x2 - sx * fst p, y2 - sy * snd p)" if "p \<in> set R" for p
  proof -
    from bnd that have b: "0 \<le> fst p" "fst p \<le> ddx" "0 \<le> snd p" "snd p \<le> ddy" by auto
    have "sx' * fst p = - (sx * fst p)"
    proof (cases "x1 = x2")
      case True
      with b show ?thesis by (simp add: ddx_def)
    next
      case False
      then show ?thesis by (simp add: sx_def sx'_def)
    qed
    moreover have "sy' * snd p = - (sy * snd p)"
    proof (cases "y1 = y2")
      case True
      with b show ?thesis by (simp add: ddy_def)
    next
      case False
      then show ?thesis by (simp add: sy_def sy'_def)
    qed
    ultimately show ?thesis by (simp add: reflect_def)
  qed
  show ?thesis
    unfolding fwd bwd pixelOf_def x1_def [symmetric] x2_def [symmetric] y1_def [symmetric] y2_def [symmetric]
    using pt by (auto simp: reflect_def case_prod_unfold)
qed

lemma toInt32_trunc: "int32 (trunc r) \<Longrightarrow> toInt32 (Num r) = trunc r"
  by (simp add: int32_def wrap32_def)

lemma wrap32_int32: "int32 i \<Longrightarrow> wrap32 i = i"
  by (simp add: int32_def wrap32_def)

text \<open>
  Claim C3, for points whose coordinates truncate into the signed 32-bit range:
  \<^verbatim>\<open>forEachLinePoint\<close> calls its callback on exactly \<open>max |dx| |dy| + 1\<close> pixels,
  where \<open>dx\<close> and \<open>dy\<close> are the differences of the truncated coordinates; the first
  pixel is the truncation of the first point, the last one the truncation of the second,
  and two consecutive pixels are at most one step apart on each axis.
\<close>

theorem forEachLinePoint_path:
  assumes p1: "point1 = \<lparr>point_x = Num a1, point_y = Num b1\<rparr>"
    and p2: "point2 = \<lparr>point_x = Num a2, point_y = Num b2\<rparr>"
    and r: "int32 (trunc a1)" "int32 (trunc b1)" "int32 (trunc a2)" "int32 (trunc b2)"
  shows "\<exists>ps. (\<forall>callback s. forEachLinePoint point1 point2 callback s =
                   Some (fold (\<lambda>(x, y). callback x y) ps s)) \<and>
              forEachLinePoint point1 point2 visit [] = Some ps \<and>
              length ps = nat (max \<bar>trunc a2 - trunc a1\<bar> \<bar>trunc b2 - trunc b1\<bar>) + 1 \<and>
              hd ps = (trunc a1, trunc b1) \<and>
              last ps = (trunc a2, trunc b2) \<and>
              (\<forall>i. Suc i < length ps \<longrightarrow> adjacent8 (ps ! i) (ps ! Suc i))"
proof (intro exI conjI allI)
  note t = r [THEN wrap32_int32]
  show "forEachLinePoint point1 point2 callback s =
        Some (fold (\<lambda>(x, y). callback x y) (linePixels point1 point2) s)" for callback :: "int \<Rightarrow> int \<Rightarrow> 'a \<Rightarrow> 'a" and s
    by (rule forEachLinePoint_fold)
  show "forEachLinePoint point1 point2 visit [] = Some (linePixels point1 point2)"
    by (rule forEachLinePoint_visit)
  show "length (linePixels point1 point2) = nat (max \<bar>trunc a2 - trunc a1\<bar> \<bar>trunc b2 - trunc b1\<bar>) + 1"
    using linePixels_props(1) [of point1 point2] by (simp add: p1 p2 t)
  show "hd (linePixels point1 point2) = (trunc a1, trunc b1)"
    using linePixels_props(2) [of point1 point2] by (simp add: p1 pixelOf_def t)
  show "last (linePixels point1 point2) = (trunc a2, trunc b2)"
    using linePixels_props(3) [of point1 point2] by (simp add: p2 pixelOf_def t)
  show "Suc i < length (linePixels point1 point2) \<longrightarrow>
        adjacent8 (linePixels point1 point2 ! i) (linePixels point1 point2 ! Suc i)" for i
    using linePixels_props(4) [of point1 point2] by (simp add: successively_conv_nth)
qed

theorem forEachLinePoint_path_witness:
  "int32 (trunc (- (1 / 2))) \<and> int32 (trunc (37 / 10)) \<and> int32 (trunc (29 / 10)) \<and> int32 (trunc (6 / 5)) \<and>
   (\<exists>ps. forEachLinePoint \<lparr>point_x = Num (- (1 / 2)), point_y = Num (37 / 10)\<rparr>
            \<lparr>point_x = Num (29 / 10), point_y = Num (6 / 5)\<rparr> visit [] = Some ps \<and>
         length ps = 3 \<and> hd ps = (0, 3) \<and> last ps = (2, 1))"
proof -
  have r: "int32 (trunc (- (1 / 2)))" "int32 (trunc (37 / 10))" "int32 (trunc (29 / 10))" "int32 (trunc (6 / 5))"
    by (simp_all add: int32_def trunc_def)
  from forEachLinePoint_path [OF refl refl r, where ?'a = "(int \<times> int) list"]
  obtain ps where "forEachLinePoint \<lparr>point_x = Num (- (1 / 2)), point_y = Num (37 / 10)\<rparr>
            \<lparr>point_x = Num (29 / 10), point_y = Num (6 / 5)\<rparr> visit [] = Some ps"
    "length ps = nat (max \<bar>trunc (29 / 10) - trunc (- (1 / 2))\<bar> \<bar>trunc (6 / 5) - trunc (37 / 10)\<bar>) + 1"
    "hd ps = (trunc (- (1 / 2)), trunc (37 / 10))" "last ps = (trunc (29 / 10), trunc (6 / 5))"
    by blast
  then show ?thesis using r by (auto simp: trunc_def)
qed

text \<open>
  Claim C3 as stated fails beyond the 32-bit range: \<^verbatim>\<open>~~4294967296\<close> is 0, so the line
  from \<open>(4294967296, 0)\<close> to \<open>(0, 0)\<close> is the single pixel \<open>(0, 0)\<close>.
\<close>

theorem forEachLinePoint_path_counterexample:
  "forEachLinePoint \<lparr>point_x = Num 4294967296, point_y = Num 0\<rparr>
     \<lparr>point_x = Num 0, point_y = Num 0\<rparr> visit [] = Some [(0, 0)] \<and>
   int (length [(0 :: int, 0 :: int)]) \<noteq> max \<bar>trunc 0 - trunc 4294967296\<bar> \<bar>trunc 0 - trunc 0\<bar> + 1 \<and>
   hd [(0 :: int, 0 :: int)] \<noteq> (trunc 4294967296, trunc 0)"
proof (intro conjI)
  show "forEachLinePoint \<lparr>point_x = Num 4294967296, point_y = Num 0\<rparr>
     \<lparr>point_x = Num 0, point_y = Num 0\<rparr> visit [] = Some [(0, 0)]"
    by (simp add: forEachLinePoint_def Let_def line_loop.simps visit_def wrap32_def trunc_def)
qed (simp_all add: trunc_def)

text \<open>
  Claim C4, amended: the call with the end points exchanged visits, pixel by pixel, the
  point reflection (through the midpoint of the two end pixels) of what the original
  call visits. So it visits equally many pixels, from the second end pixel to the first.
\<close>

theorem forEachLinePoint_reversed:
  "\<exists>ps. forEachLinePoint point1 point2 visit [] = Some ps \<and>
        forEachLinePoint point2 point1 visit [] =
          Some (map (reflect (pixelOf point1) (pixelOf point2)) ps)"
proof (intro exI conjI)
  show "forEachLinePoint point1 point2 visit [] = Some (linePixels point1 point2)"
    by (rule forEachLinePoint_visit)
  have "forEachLinePoint point2 point1 visit [] = Some (linePixels point2 point1)"
    by (rule forEachLinePoint_visit)
  also have "linePixels point2 point1 =
      map (reflect (pixelOf point1) (pixelOf point2)) (linePixels point1 point2)"
    by (rule linePixels_reverse)
  finally show "forEachLinePoint point2 point1 visit [] =
      Some (map (reflect (pixelOf point1) (pixelOf point2)) (linePixels point1 point2))" .
qed

theorem forEachLinePoint_reversed_witness:
  "\<exists>ps. forEachLinePoint \<lparr>point_x = Num 0, point_y = Num 0\<rparr> \<lparr>point_x = Num 2, point_y = Num 1\<rparr> visit [] = Some ps \<and>
        forEachLinePoint \<lparr>point_x = Num 2, point_y = Num 1\<rparr> \<lparr>point_x = Num 0, point_y = Num 0\<rparr> visit [] =
          Some (map (reflect (0, 0) (2, 1)) ps)"
  using forEachLinePoint_reversed [of "\<lparr>point_x = Num 0, point_y = Num 0\<rparr>" "\<lparr>point_x = Num 2, point_y = Num 1\<rparr>"]
  by (simp add: pixelOf_def wrap32_def trunc_def)

text \<open>
  Claim C4 as stated fails: from \<open>(0, 0)\<close> to \<open>(2, 1)\<close> the loop passes through
  \<open>(1, 0)\<close>, from \<open>(2, 1)\<close> to \<open>(0, 0)\<close> through \<open>(1, 1)\<close>.
\<close>

theorem forEachLinePoint_reversed_counterexample:
  "forEachLinePoint \<lparr>point_x = Num 0, point_y = Num 0\<rparr> \<lparr>point_x = Num 2, point_y = Num 1\<rparr> visit []
     = Some [(0, 0), (1, 0), (2, 1)] \<and>
   forEachLinePoint \<lparr>point_x = Num 2, point_y = Num 1\<rparr> \<lparr>point_x = Num 0, point_y = Num 0\<rparr> visit []
     = Some [(2, 1), (1, 1), (0, 0)] \<and>
   [(2, 1), (1, 1), (0, 0)] \<noteq> rev [(0 :: int, 0 :: int), (1, 0), (2, 1)] \<and>
   (1, 1) \<in> set [(2 :: int, 1 :: int), (1, 1), (0, 0)] \<and>
   (1, 1) \<notin> set [(0 :: int, 0 :: int), (1, 0), (2, 1)]"
  by (simp add: forEachLinePoint_def Let_def line_loop.simps visit_def wrap32_def trunc_def)

section \<open>Pixels of a well-formed bitmap\<close>

lemma cell_less:
  assumes "0 \<le> x" "x < w" "0 \<le> y" "y < h"
  shows "y * w + x < h * (w :: int)" and "0 \<le> y * w + x"
proof -
  have "y * w \<le> (h - 1) * w"
    using assms by (intro mult_right_mono) auto
  then show "y * w + x < h * w" using assms by (simp add: algebra_simps)
  show "0 \<le> y * w + x" using assms by simp
qed

lemma cell_inj:
  assumes "0 \<le> x" "x < w" "0 \<le> x'" "x' < w" "y * w + x = y' * w + (x' :: int)"
  shows "x = x' \<and> y = y'"
proof -
  have "(y * w + x) mod w = x" "(y' * w + x') mod w = x'"
    using assms(1-4) by simp_all
  with assms(5) have x: "x = x'" by simp
  with assms have "y * w = y' * w" by simp
  with assms x show ?thesis by auto
qed

lemma offset_bound:
  assumes "wf_image img" "inb img p"
  shows "offset img p + 3 < length (data img)"
proof -
  have c: "snd p * int (width img) + fst p < int (height img) * int (width img)"
    "0 \<le> snd p * int (width img) + fst p"
    using assms(2) by (auto simp: inb_def intro: cell_less)
  have "int (length (data img)) = 4 * (int (height img) * int (width img))"
    using assms(1) by (simp add: wf_image_def)
  with c show ?thesis by (simp add: offset_def nat_less_iff)
qed

lemma offset_int:
  assumes "inb img p"
  shows "int (offset img p) = (snd p * int (width img) + fst p) * 4"
  using assms by (simp add: offset_def inb_def)

lemma offset_disj:
  assumes "inb img p" "inb img q" "p \<noteq> q"
  shows "offset img p + 4 \<le> offset img q \<or> offset img q + 4 \<le> offset img p"
proof -
  have "snd p * int (width img) + fst p \<noteq> snd q * int (width img) + fst q"
    using assms cell_inj [of "fst p" "int (width img)" "fst q" "snd p" "snd q"]
    by (auto simp: inb_def prod_eq_iff)
  then have "int (offset img p) + 4 \<le> int (offset img q) \<or> int (offset img q) + 4 \<le> int (offset img p)"
    unfolding offset_int [OF assms(1)] offset_int [OF assms(2)] by presburger
  then show ?thesis by linarith
qed

lemma matchesColor_pixel:
  assumes "wf_image img" "inb img (x, y)"
  shows "matchesColor x y img c \<longleftrightarrow> pixel img (x, y) = c"
proof -
  have o: "((y * int (width img)) + x) * 4 = int (offset img (x, y))"
    using offset_int [OF assms(2)] by simp
  have b: "offset img (x, y) + 3 < length (data img)"
    by (rule offset_bound [OF assms])
  have g: "arrayGet (data img) (int (offset img (x, y)) + int k) = Some (data img ! (offset img (x, y) + k))"
    if "k \<le> 3" for k
    using b that by (simp add: arrayGet_def nat_add_distrib)
  show ?thesis
    unfolding matchesColor_def Let_def o pixel_def
    using g [of 0] g [of 1] g [of 2] g [of 3]
    by (auto split: prod.splits)
qed

lemma length_arraySet [simp]: "length (arraySet d i v) = length d"
  by (simp add: arraySet_def)

lemma width_colorPixel [simp]: "width (colorPixel x y img c) = width img"
  by (simp add: colorPixel_def Let_def split: prod.splits)

declare height_colorPixel [simp]

lemma length_colorPixel [simp]: "length (data (colorPixel x y img c)) = length (data img)"
  by (simp add: colorPixel_def Let_def split: prod.splits)

lemma wf_colorPixel [simp]: "wf_image (colorPixel x y img c) = wf_image img"
  by (simp add: wf_image_def)

lemma inb_colorPixel [simp]: "inb (colorPixel x y img c) p = inb img p"
  by (simp add: inb_def)

lemma offset_colorPixel [simp]: "offset (colorPixel x y img c) p = offset img p"
  by (simp add: offset_def)

lemma data_colorPixel:
  assumes "wf_image img" "inb img (x, y)"
  shows "data (colorPixel x y img (r, g, b, a)) =
    (data img)[offset img (x, y) := r, offset img (x, y) + 1 := g,
               offset img (x, y) + 2 := b, offset img (x, y) + 3 := a]"
proof -
  have o: "((y * int (width img)) + x) * 4 = int (offset img (x, y))"
    using offset_int [OF assms(2)] by simp
  have b: "offset img (x, y) + 3 < length (data img)"
    by (rule offset_bound [OF assms])
  have s: "arraySet d (int (offset img (x, y)) + int k) v = d[offset img (x, y) + k := v]"
    if "k \<le> 3" "length d = length (data img)" for k d v
    using b that by (simp add: arraySet_def nat_add_distrib)
  show ?thesis
    unfolding colorPixel_def Let_def o prod.case
    using s [of 0] s [of 1] s [of 2] s [of 3] by simp
qed

lemma pixel_colorPixel_same:
  assumes "wf_image img" "inb img (x, y)"
  shows "pixel (colorPixel x y img c) (x, y) = c"
proof -
  obtain r g b a where c: "c = (r, g, b, a)" by (cases c) auto
  have b: "offset img (x, y) + 3 < length (data img)"
    by (rule offset_bound [OF assms])
  show ?thesis
    unfolding pixel_def c offset_colorPixel data_colorPixel [OF assms]
    using b by simp
qed

lemma pixel_colorPixel_other:
  assumes "wf_image img" "inb img (x, y)" "inb img q" "q \<noteq> (x, y)"
  shows "pixel (colorPixel x y img c) q = pixel img q"
proof -
  obtain r g b a where c: "c = (r, g, b, a)" by (cases c) auto
  from offset_disj [OF assms(3) assms(2) assms(4)]
  have "offset img q + 4 \<le> offset img (x, y) \<or> offset img (x, y) + 4 \<le> offset img q" .
  then show ?thesis
    unfolding pixel_def c offset_colorPixel data_colorPixel [OF assms(1,2)]
    by auto
qed

lemma pixel_colorPixel:
  assumes "wf_image img" "inb img (x, y)" "inb img q"
  shows "pixel (colorPixel x y img c) q = (if q = (x, y) then c else pixel img q)"
  using assms by (simp add: pixel_colorPixel_same pixel_colorPixel_other)

text \<open>One pass of the body of the loops of \<^verbatim>\<open>floodFillAll\<close>.\<close>

lemma recolor_step:
  assumes "wf_image img" "inb img (x, y)" "inb img q"
  shows "pixel (if matchesColor x y img old then colorPixel x y img new else img) q =
         (if q = (x, y) \<and> pixel img q = old then new else pixel img q)"
  using assms by (auto simp: matchesColor_pixel pixel_colorPixel)

lemma recolor_column:
  fixes old new :: color
  assumes "wf_image img" "0 \<le> x" "x < int (width img)" "\<forall>j \<in> set js. j < height img"
  defines "res \<equiv> fold (\<lambda>j imageData.
                      if matchesColor x (int j) imageData old
                      then colorPixel x (int j) imageData new
                      else imageData) js img"
  shows "wf_image res \<and> width res = width img \<and> height res = height img \<and>
    (\<forall>q. inb img q \<longrightarrow> pixel res q =
       (if fst q = x \<and> nat (snd q) \<in> set js \<and> pixel img q = old then new else pixel img q))"
  using assms(1-4) unfolding res_def
proof (induction js arbitrary: img)
  case Nil
  then show ?case by simp
next
  case (Cons j js)
  define img1 where "img1 = (if matchesColor x (int j) img old then colorPixel x (int j) img new else img)"
  have inbj: "inb img (x, int j)" using Cons.prems by (simp add: inb_def)
  have wf1: "wf_image img1" and w1: "width img1 = width img" and h1: "height img1 = height img"
    using Cons.prems by (simp_all add: img1_def)
  have inb1: "inb img1 q = inb img q" for q by (simp add: inb_def w1 h1)
  have p1: "pixel img1 q = (if q = (x, int j) \<and> pixel img q = old then new else pixel img q)"
    if "inb img q" for q
    unfolding img1_def by (rule recolor_step [OF Cons.prems(1) inbj that])
  have IH: "wf_image (fold (\<lambda>j imageData.
                      if matchesColor x (int j) imageData old
                      then colorPixel x (int j) imageData new
                      else imageData) js img1) \<and>
    width (fold (\<lambda>j imageData.
                      if matchesColor x (int j) imageData old
                      then colorPixel x (int j) imageData new
                      else imageData) js img1) = width img1 \<and>
    height (fold (\<lambda>j imageData.
                      if matchesColor x (int j) imageData old
                      then colorPixel x (int j) imageData new
                      else imageData) js img1) = height img1 \<and>
    (\<forall>q. inb img1 q \<longrightarrow> pixel (fold (\<lambda>j imageData.
                      if matchesColor x (int j) imageData old
                      then colorPixel x (int j) imageData new
                      else imageData) js img1) q =
       (if fst q = x \<and> nat (snd q) \<in> set js \<and> pixel img1 q = old then new else pixel img1 q))"
    using Cons.prems by (intro Cons.IH) (simp_all add: wf1 w1 h1)
  have step: "(if fst q = x \<and> nat (snd q) \<in> set js \<and> pixel img1 q = old then new else pixel img1 q) =
       (if fst q = x \<and> nat (snd q) \<in> set (j # js) \<and> pixel img q = old then new else pixel img q)"
    if "inb img q" for q
  proof -
    have "q = (x, int j) \<longleftrightarrow> fst q = x \<and> nat (snd q) = j"
      using that by (auto simp: inb_def prod_eq_iff)
    then show ?thesis using p1 [OF that] by auto
  qed
  show ?case
    using IH step by (simp add: img1_def [symmetric] w1 h1 inb1)
qed

lemma recolor_all:
  fixes old new :: color
  assumes "wf_image img" "\<forall>i \<in> set is. i < w" "width img = w"
  defines "res \<equiv> fold (\<lambda>i imageData.
                  fold (\<lambda>j imageData.
                      if matchesColor (int i) (int j) imageData old
                      then colorPixel (int i) (int j) imageData new
                      else imageData)
                    [0..<height imageData] imageData) is img"
  shows "wf_image res \<and> width res = width img \<and> height res = height img \<and>
    (\<forall>q. inb img q \<longrightarrow> pixel res q =
       (if nat (fst q) \<in> set is \<and> pixel img q = old then new else pixel img q))"
  using assms(1-3) unfolding res_def
proof (induction "is" arbitrary: img)
  case Nil
  then show ?case by simp
next
  case (Cons i "is")
  define img1 where "img1 = fold (\<lambda>j imageData.
                      if matchesColor (int i) (int j) imageData old
                      then colorPixel (int i) (int j) imageData new
                      else imageData) [0..<height img] img"
  have col: "wf_image img1 \<and> width img1 = width img \<and> height img1 = height img \<and>
    (\<forall>q. inb img q \<longrightarrow> pixel img1 q =
       (if fst q = int i \<and> nat (snd q) \<in> set [0..<height img] \<and> pixel img q = old then new else pixel img q))"
    unfolding img1_def using Cons.prems by (intro recolor_column) auto
  then have wf1: "wf_image img1" and w1: "width img1 = width img" and h1: "height img1 = height img"
    and p1: "\<And>q. inb img q \<Longrightarrow> pixel img1 q =
       (if fst q = int i \<and> pixel img q = old then new else pixel img q)"
    by (auto simp: inb_def)
  have inb1: "inb img1 q = inb img q" for q by (simp add: inb_def w1 h1)
  define F where "F = (\<lambda>i imageData.
                  fold (\<lambda>j imageData.
                      if matchesColor (int i) (int j) imageData old
                      then colorPixel (int i) (int j) imageData new
                      else imageData)
                    [0..<height imageData] imageData)"
  have IH: "wf_image (fold F is img1) \<and> width (fold F is img1) = width img1 \<and>
    height (fold F is img1) = height img1 \<and>
    (\<forall>q. inb img1 q \<longrightarrow> pixel (fold F is img1) q =
       (if nat (fst q) \<in> set is \<and> pixel img1 q = old then new else pixel img1 q))"
    unfolding F_def using Cons.prems by (intro Cons.IH) (simp_all add: wf1 w1)
  have step: "(if nat (fst q) \<in> set is \<and> pixel img1 q = old then new else pixel img1 q) =
       (if nat (fst q) \<in> set (i # is) \<and> pixel img q = old then new else pixel img q)"
    if "inb img q" for q
  proof -
    have "fst q = int i \<longleftrightarrow> nat (fst q) = i"
      using that by (auto simp: inb_def)
    then show ?thesis using p1 [OF that] by auto
  qed
  have "fold F (i # is) img = fold F is img1"
    by (simp add: F_def img1_def)
  then show ?case
    unfolding F_def [symmetric] using IH step by (simp add: w1 h1 inb1)
qed

section \<open>One column scan of the flood fill\<close>

lemma cover_step:
  assumes "cover m (m y) (y + 1) yb S'" "S' \<subseteq> S" "m y \<and> \<not> l \<longrightarrow> y \<in> S"
  shows "cover m l y yb S"
  unfolding cover_def
proof (intro allI impI)
  fix r assume r: "y \<le> r \<and> r < yb \<and> m r"
  have first: "(l \<and> (\<forall>k. y \<le> k \<and> k \<le> r \<longrightarrow> m k)) \<or>
        (\<exists>r'. y \<le> r' \<and> r' \<le> r \<and> r' \<in> S \<and> (\<forall>k. r' \<le> k \<and> k \<le> r \<longrightarrow> m k))"
    if all: "\<forall>k. y \<le> k \<and> k \<le> r \<longrightarrow> m k"
  proof (cases l)
    case True
    with all show ?thesis by blast
  next
    case False
    from all r have "m y" by simp
    with False assms(3) have "y \<in> S" by simp
    with all r show ?thesis by (intro disjI2 exI [of _ y]) simp
  qed
  show "(l \<and> (\<forall>k. y \<le> k \<and> k \<le> r \<longrightarrow> m k)) \<or>
        (\<exists>r'. y \<le> r' \<and> r' \<le> r \<and> r' \<in> S \<and> (\<forall>k. r' \<le> k \<and> k \<le> r \<longrightarrow> m k))"
  proof (cases "r = y")
    case True
    with r have "\<forall>k. y \<le> k \<and> k \<le> r \<longrightarrow> m k" by auto
    then show ?thesis by (rule first)
  next
    case False
    with r have "y + 1 \<le> r \<and> r < yb \<and> m r" by simp
    with assms(1) have "(m y \<and> (\<forall>k. y + 1 \<le> k \<and> k \<le> r \<longrightarrow> m k)) \<or>
        (\<exists>r'. y + 1 \<le> r' \<and> r' \<le> r \<and> r' \<in> S' \<and> (\<forall>k. r' \<le> k \<and> k \<le> r \<longrightarrow> m k))"
      unfolding cover_def by blast
    then show ?thesis
    proof
      assume a: "m y \<and> (\<forall>k. y + 1 \<le> k \<and> k \<le> r \<longrightarrow> m k)"
      have "\<forall>k. y \<le> k \<and> k \<le> r \<longrightarrow> m k"
      proof (intro allI impI)
        fix k assume "y \<le> k \<and> k \<le> r"
        then have "k = y \<or> y + 1 \<le> k \<and> k \<le> r" by auto
        with a show "m k" by blast
      qed
      then show ?thesis by (rule first)
    next
      assume "\<exists>r'. y + 1 \<le> r' \<and> r' \<le> r \<and> r' \<in> S' \<and> (\<forall>k. r' \<le> k \<and> k \<le> r \<longrightarrow> m k)"
      then obtain r' where "y + 1 \<le> r'" "r' \<le> r" "r' \<in> S'" "\<forall>k. r' \<le> k \<and> k \<le> r \<longrightarrow> m k"
        by blast
      with assms(2) show ?thesis by (intro disjI2 exI [of _ r']) auto
    qed
  qed
qed

lemma cover_empty: "yb \<le> y \<Longrightarrow> cover m l y yb S"
  by (auto simp: cover_def)

lemma cover_cong_range:
  assumes "\<And>r. y \<le> r \<Longrightarrow> r < yb \<Longrightarrow> m r = m' r"
  shows "cover m l y yb S = cover m' l y yb S"
proof -
  have "cover a l y yb S \<Longrightarrow> cover b l y yb S"
    if "\<And>r. y \<le> r \<Longrightarrow> r < yb \<Longrightarrow> a r = b r" for a b
    unfolding cover_def
  proof (intro allI impI)
    fix r assume c: "\<forall>r. y \<le> r \<and> r < yb \<and> a r \<longrightarrow>
        (l \<and> (\<forall>k. y \<le> k \<and> k \<le> r \<longrightarrow> a k)) \<or>
        (\<exists>r'. y \<le> r' \<and> r' \<le> r \<and> r' \<in> S \<and> (\<forall>k. r' \<le> k \<and> k \<le> r \<longrightarrow> a k))"
      and r: "y \<le> r \<and> r < yb \<and> b r"
    with that have "y \<le> r \<and> r < yb \<and> a r" by simp
    with c have "(l \<and> (\<forall>k. y \<le> k \<and> k \<le> r \<longrightarrow> a k)) \<or>
        (\<exists>r'. y \<le> r' \<and> r' \<le> r \<and> r' \<in> S \<and> (\<forall>k. r' \<le> k \<and> k \<le> r \<longrightarrow> a k))" by blast
    then show "(l \<and> (\<forall>k. y \<le> k \<and> k \<le> r \<longrightarrow> b k)) \<or>
        (\<exists>r'. y \<le> r' \<and> r' \<le> r \<and> r' \<in> S \<and> (\<forall>k. r' \<le> k \<and> k \<le> r \<longrightarrow> b k))"
    proof
      assume "l \<and> (\<forall>k. y \<le> k \<and> k \<le> r \<longrightarrow> a k)"
      with that r show ?thesis by (intro disjI1) (metis le_less_trans)
    next
      assume "\<exists>r'. y \<le> r' \<and> r' \<le> r \<and> r' \<in> S \<and> (\<forall>k. r' \<le> k \<and> k \<le> r \<longrightarrow> a k)"
      then obtain r' where r': "y \<le> r'" "r' \<le> r" "r' \<in> S" "\<forall>k. r' \<le> k \<and> k \<le> r \<longrightarrow> a k"
        by blast
      have "\<forall>k. r' \<le> k \<and> k \<le> r \<longrightarrow> b k"
      proof (intro allI impI)
        fix k assume k: "r' \<le> k \<and> k \<le> r"
        with r' have "a k" by blast
        moreover from k r' r have "y \<le> k" "k < yb" by auto
        ultimately show "b k" using that by simp
      qed
      with r' show ?thesis by (intro disjI2 exI [of _ r']) simp
    qed
  qed
  from this [of m m'] this [of m' m] assms show ?thesis by metis
qed

lemma cover_mono_false: "(\<And>r. \<not> m r) \<Longrightarrow> cover m l y yb S"
  by (simp add: cover_def)

lemma walkUp_spec:
  assumes "wf_image img" "0 \<le> x" "x < int (width img)" "0 \<le> y" "y < int (height img)"
  shows "0 \<le> walkUp x y img old \<and> walkUp x y img old \<le> y \<and>
         seg img old x (walkUp x y img old) (y - 1) \<and>
         (walkUp x y img old = 0 \<or> pixel img (x, walkUp x y img old - 1) \<noteq> old)"
  using assms
proof (induction x y img old rule: walkUp.induct)
  case (1 x y img old)
  show ?case
  proof (cases "y > 0 \<and> matchesColor x (y - 1) img old")
    case True
    then have y: "0 < y" and m: "matchesColor x (y - 1) img old" by simp_all
    have i: "inb img (x, y - 1)" using "1.prems" y by (simp add: inb_def)
    from m have p: "pixel img (x, y - 1) = old"
      by (simp add: matchesColor_pixel [OF "1.prems"(1) i])
    have u: "walkUp x y img old = walkUp x (y - 1) img old"
      using True by (subst walkUp.simps) simp
    from "1.IH" [OF True] "1.prems" y
    have IH: "0 \<le> walkUp x (y - 1) img old \<and> walkUp x (y - 1) img old \<le> y - 1 \<and>
         seg img old x (walkUp x (y - 1) img old) (y - 1 - 1) \<and>
         (walkUp x (y - 1) img old = 0 \<or> pixel img (x, walkUp x (y - 1) img old - 1) \<noteq> old)"
      by simp
    have "seg img old x (walkUp x (y - 1) img old) (y - 1)"
      unfolding seg_def
    proof (intro allI impI)
      fix r assume "walkUp x (y - 1) img old \<le> r \<and> r \<le> y - 1"
      then have "r = y - 1 \<or> walkUp x (y - 1) img old \<le> r \<and> r \<le> y - 1 - 1" by auto
      with p IH show "pixel img (x, r) = old" unfolding seg_def by blast
    qed
    with IH show ?thesis unfolding u by simp
  next
    case False
    then have u: "walkUp x y img old = y" by (subst walkUp.simps) simp
    have "y = 0 \<or> pixel img (x, y - 1) \<noteq> old"
    proof (cases "y = 0")
      case False
      with "1.prems" have y: "0 < y" by simp
      have i: "inb img (x, y - 1)" using "1.prems" y by (simp add: inb_def)
      from \<open>\<not> (y > 0 \<and> matchesColor x (y - 1) img old)\<close> y
      have "\<not> matchesColor x (y - 1) img old" by simp
      then show ?thesis by (simp add: matchesColor_pixel [OF "1.prems"(1) i])
    qed simp
    moreover have "seg img old x y (y - 1)" by (auto simp: seg_def)
    ultimately show ?thesis unfolding u using "1.prems" by simp
  qed
qed

lemma scanDown_spec:
  "wf_image img \<Longrightarrow> 0 \<le> x \<Longrightarrow> x < int (width img) \<Longrightarrow> 0 \<le> y \<Longrightarrow> y \<le> int (height img) \<Longrightarrow>
   n = nat (int (height img) - y) \<Longrightarrow>
   \<exists>yb P. scan_post x new old y img stack ll lr (scanDown x new old y img stack ll lr) yb P"
proof (induction n arbitrary: y img stack ll lr)
  case 0
  then have "\<not> y < int (height img)" by simp
  then have u: "scanDown x new old y img stack ll lr = (img, stack)"
    by (subst scanDown.simps) simp
  have "scan_post x new old y img stack ll lr (img, stack) y []"
    unfolding scan_post_def using 0
    by (auto simp: seg_def cover_empty)
  then show ?case unfolding u by blast
next
  case (Suc n)
  then have yh: "y < int (height img)" by simp
  have iy: "inb img (x, y)" using Suc.prems yh by (simp add: inb_def)
  show ?case
  proof (cases "matchesColor x y img old")
    case False
    then have u: "scanDown x new old y img stack ll lr = (img, stack)"
      using yh by (subst scanDown.simps) simp
    from False have "pixel img (x, y) \<noteq> old"
      by (simp add: matchesColor_pixel [OF Suc.prems(1) iy])
    then have "scan_post x new old y img stack ll lr (img, stack) y []"
      unfolding scan_post_def using Suc.prems yh
      by (auto simp: seg_def cover_empty)
    then show ?thesis unfolding u by blast
  next
    case True
    then have py: "pixel img (x, y) = old"
      by (simp add: matchesColor_pixel [OF Suc.prems(1) iy])
    define img1 where "img1 = colorPixel x y img new"
    have wf1: "wf_image img1" and w1: "width img1 = width img" and h1: "height img1 = height img"
      using Suc.prems(1) by (simp_all add: img1_def)
    have inb1: "inb img1 q = inb img q" for q by (simp add: img1_def)
    have p1: "pixel img1 q = (if q = (x, y) then new else pixel img q)" if "inb img q" for q
      unfolding img1_def by (rule pixel_colorPixel [OF Suc.prems(1) iy that])
    define mL where "mL = (0 < x \<and> pixel img (x - 1, y) = old)"
    define mR where "mR = (x < int (width img) - 1 \<and> pixel img (x + 1, y) = old)"
    have mLeq: "matchesColor (x - 1) y img1 old = (pixel img (x - 1, y) = old)" if "0 < x"
    proof -
      have i: "inb img (x - 1, y)" using that Suc.prems yh by (simp add: inb_def)
      then have "inb img1 (x - 1, y)" by (simp add: inb1)
      from matchesColor_pixel [OF wf1 this] p1 [OF i] show ?thesis by simp
    qed
    have mReq: "matchesColor (x + 1) y img1 old = (pixel img (x + 1, y) = old)"
      if "x < int (width img) - 1"
    proof -
      have i: "inb img (x + 1, y)" using that Suc.prems yh by (simp add: inb_def)
      then have "inb img1 (x + 1, y)" by (simp add: inb1)
      from matchesColor_pixel [OF wf1 this] p1 [OF i] show ?thesis by simp
    qed
    define stack1 where "stack1 = (if mL \<and> \<not> ll then (x - 1, y) # stack else stack)"
    define ll1 where "ll1 = (if 0 < x then pixel img (x - 1, y) = old else ll)"
    define stack2 where "stack2 = (if mR \<and> \<not> lr then (x + 1, y) # stack1 else stack1)"
    define lr1 where "lr1 = (if x < int (width img) - 1 then pixel img (x + 1, y) = old else lr)"
    define P0 where "P0 = (if mR \<and> \<not> lr then [(x + 1, y)] else []) @ (if mL \<and> \<not> ll then [(x - 1, y)] else [])"
    have s2: "stack2 = P0 @ stack" by (simp add: stack2_def stack1_def P0_def)
    have e1: "(if 0 < x then
                   if matchesColor (x - 1) y img1 old then
                     if \<not> ll then (x - 1, y) # stack else stack
                   else stack
                 else stack) = stack1"
      by (cases "0 < x") (simp_all add: mLeq stack1_def mL_def)
    have e2: "(if 0 < x then
                   if matchesColor (x - 1) y img1 old then
                     if \<not> ll then True else ll
                   else False
                 else ll) = ll1"
      by (cases "0 < x") (auto simp: mLeq ll1_def)
    have e3: "(if x < int (width img) - 1 then
                   if matchesColor (x + 1) y img1 old then
                     if \<not> lr then (x + 1, y) # stack1 else stack1
                   else stack1
                 else stack1) = stack2"
      by (cases "x < int (width img) - 1") (simp_all add: mReq stack2_def mR_def)
    have e4: "(if x < int (width img) - 1 then
                   if matchesColor (x + 1) y img1 old then
                     if \<not> lr then True else lr
                   else False
                 else lr) = lr1"
      by (cases "x < int (width img) - 1") (auto simp: mReq lr1_def)
    have u: "scanDown x new old y img stack ll lr = scanDown x new old (y + 1) img1 stack2 ll1 lr1"
      by (subst scanDown.simps)
        (simp only: yh True if_True not_True_eq_False if_False Let_def img1_def [symmetric] w1 e1 e2 e3 e4)
    have "\<exists>yb P. scan_post x new old (y + 1) img1 stack2 ll1 lr1
        (scanDown x new old (y + 1) img1 stack2 ll1 lr1) yb P"
      using Suc.prems yh by (intro Suc.IH) (simp_all add: wf1 w1 h1)
    then obtain yb P' where post: "scan_post x new old (y + 1) img1 stack2 ll1 lr1
        (scanDown x new old (y + 1) img1 stack2 ll1 lr1) yb P'" by blast
    define res where "res = scanDown x new old (y + 1) img1 stack2 ll1 lr1"
    note q = post [unfolded scan_post_def, folded res_def]
    from q have yb: "y + 1 \<le> yb" "yb \<le> int (height img)" by (simp_all add: h1)
    from q have seg1: "seg img1 old x (y + 1) (yb - 1)" by blast
    from q have stop1: "yb < int (height img) \<longrightarrow> pixel img1 (x, yb) \<noteq> old" by (simp add: h1)
    from q have dims: "wf_image (fst res)" "width (fst res) = width img" "height (fst res) = height img"
      by (simp_all add: w1 h1)
    from q have pix1: "\<forall>q. inb img q \<longrightarrow>
         pixel (fst res) q = (if fst q = x \<and> y + 1 \<le> snd q \<and> snd q < yb then new else pixel img1 q)"
      by (simp add: inb1)
    from q have stk: "snd res = P' @ stack2" by blast
    from q have ent1: "\<forall>e \<in> set P'. \<exists>r. y + 1 \<le> r \<and> r < yb \<and>
         (e = (x - 1, r) \<and> 0 < x \<or> e = (x + 1, r) \<and> x < int (width img) - 1) \<and>
         pixel img1 e = old" by (simp add: w1)
    from q have covL1: "cover (\<lambda>r. 0 < x \<and> pixel img1 (x - 1, r) = old) ll1 (y + 1) yb
        {r. (x - 1, r) \<in> set P'}" by blast
    from q have covR1: "cover (\<lambda>r. x < int (width img) - 1 \<and> pixel img1 (x + 1, r) = old) lr1 (y + 1) yb
        {r. (x + 1, r) \<in> set P'}" by (simp add: w1)
    have inrow: "inb img (c, r)" if "0 \<le> c" "c < int (width img)" "y \<le> r" "r < yb" for c r
      using that Suc.prems yb by (simp add: inb_def)
    have same: "pixel img1 (c, r) = pixel img (c, r)"
      if "0 \<le> c" "c < int (width img)" "y \<le> r" "r < yb" "(c, r) \<noteq> (x, y)" for c r
      using p1 [OF inrow [OF that(1-4)]] that(5) by auto
    have "scan_post x new old y img stack ll lr res yb (P' @ P0)"
      unfolding scan_post_def
    proof (intro conjI)
      show "y \<le> yb" using yb by simp
      show "yb \<le> int (height img)" by (rule yb)
      show "seg img old x y (yb - 1)"
        unfolding seg_def
      proof (intro allI impI)
        fix r assume r: "y \<le> r \<and> r \<le> yb - 1"
        show "pixel img (x, r) = old"
        proof (cases "r = y")
          case True
          with py show ?thesis by simp
        next
          case False
          with r have "y + 1 \<le> r \<and> r \<le> yb - 1" by simp
          with seg1 have "pixel img1 (x, r) = old" unfolding seg_def by blast
          moreover have "pixel img1 (x, r) = pixel img (x, r)"
            using r False Suc.prems by (intro same) auto
          ultimately show ?thesis by simp
        qed
      qed
      show "yb < int (height img) \<longrightarrow> pixel img (x, yb) \<noteq> old"
      proof
        assume a: "yb < int (height img)"
        with stop1 have "pixel img1 (x, yb) \<noteq> old" by simp
        moreover have "inb img (x, yb)" using a yb Suc.prems by (simp add: inb_def)
        ultimately show "pixel img (x, yb) \<noteq> old" using p1 [of "(x, yb)"] yb by simp
      qed
      show "wf_image (fst res)" "width (fst res) = width img" "height (fst res) = height img"
        by (rule dims)+
      show "\<forall>q. inb img q \<longrightarrow>
         pixel (fst res) q = (if fst q = x \<and> y \<le> snd q \<and> snd q < yb then new else pixel img q)"
      proof (intro allI impI)
        fix q assume i: "inb img q"
        with pix1 have a: "pixel (fst res) q =
            (if fst q = x \<and> y + 1 \<le> snd q \<and> snd q < yb then new else pixel img1 q)" by blast
        show "pixel (fst res) q = (if fst q = x \<and> y \<le> snd q \<and> snd q < yb then new else pixel img q)"
        proof (cases "q = (x, y)")
          case True
          with a p1 [OF i] yb show ?thesis by simp
        next
          case False
          then have "\<not> (fst q = x \<and> snd q = y)" by (auto simp: prod_eq_iff)
          then have "(fst q = x \<and> y + 1 \<le> snd q \<and> snd q < yb) = (fst q = x \<and> y \<le> snd q \<and> snd q < yb)"
            by auto
          with a p1 [OF i] False show ?thesis by simp
        qed
      qed
      show "snd res = (P' @ P0) @ stack" using stk s2 by simp
      show "\<forall>e \<in> set (P' @ P0). \<exists>r. y \<le> r \<and> r < yb \<and>
         (e = (x - 1, r) \<and> 0 < x \<or> e = (x + 1, r) \<and> x < int (width img) - 1) \<and>
         pixel img e = old"
      proof
        fix e assume "e \<in> set (P' @ P0)"
        then consider "e \<in> set P'" | "e \<in> set P0" by auto
        then show "\<exists>r. y \<le> r \<and> r < yb \<and>
         (e = (x - 1, r) \<and> 0 < x \<or> e = (x + 1, r) \<and> x < int (width img) - 1) \<and>
         pixel img e = old"
        proof cases
          case 1
          with ent1 obtain r where r: "y + 1 \<le> r" "r < yb"
            "e = (x - 1, r) \<and> 0 < x \<or> e = (x + 1, r) \<and> x < int (width img) - 1"
            "pixel img1 e = old" by blast
          have "pixel img1 e = pixel img e"
            using r(3)
          proof
            assume "e = (x - 1, r) \<and> 0 < x"
            then show ?thesis using r Suc.prems by (simp add: same)
          next
            assume "e = (x + 1, r) \<and> x < int (width img) - 1"
            then show ?thesis using r Suc.prems by (simp add: same)
          qed
          with r show ?thesis by (intro exI [of _ r]) simp
        next
          case 2
          then have "e = (x + 1, y) \<and> mR \<or> e = (x - 1, y) \<and> mL"
            by (auto simp: P0_def split: if_splits)
          then show ?thesis using yb by (intro exI [of _ y]) (auto simp: mL_def mR_def)
        qed
      qed
      show "cover (\<lambda>r. 0 < x \<and> pixel img (x - 1, r) = old) ll y yb {r. (x - 1, r) \<in> set (P' @ P0)}"
      proof (cases "0 < x")
        case True
        have "cover (\<lambda>r. 0 < x \<and> pixel img (x - 1, r) = old) ll1 (y + 1) yb {r. (x - 1, r) \<in> set P'}"
          using covL1 True Suc.prems
          by (subst cover_cong_range [where m' = "\<lambda>r. 0 < x \<and> pixel img1 (x - 1, r) = old"])
            (simp_all add: same)
        moreover have "ll1 = (0 < x \<and> pixel img (x - 1, y) = old)" using True by (simp add: ll1_def)
        ultimately have "cover (\<lambda>r. 0 < x \<and> pixel img (x - 1, r) = old)
            (0 < x \<and> pixel img (x - 1, y) = old) (y + 1) yb {r. (x - 1, r) \<in> set P'}" by simp
        then show ?thesis
          by (rule cover_step) (auto simp: P0_def mL_def)
      next
        case False
        then show ?thesis by (intro cover_mono_false) simp
      qed
      show "cover (\<lambda>r. x < int (width img) - 1 \<and> pixel img (x + 1, r) = old) lr y yb
          {r. (x + 1, r) \<in> set (P' @ P0)}"
      proof (cases "x < int (width img) - 1")
        case True
        have "cover (\<lambda>r. x < int (width img) - 1 \<and> pixel img (x + 1, r) = old) lr1 (y + 1) yb
            {r. (x + 1, r) \<in> set P'}"
          using covR1 True Suc.prems
          by (subst cover_cong_range [where m' = "\<lambda>r. x < int (width img) - 1 \<and> pixel img1 (x + 1, r) = old"])
            (simp_all add: same)
        moreover have "lr1 = (x < int (width img) - 1 \<and> pixel img (x + 1, y) = old)"
          using True by (simp add: lr1_def)
        ultimately have "cover (\<lambda>r. x < int (width img) - 1 \<and> pixel img (x + 1, r) = old)
            (x < int (width img) - 1 \<and> pixel img (x + 1, y) = old) (y + 1) yb
            {r. (x + 1, r) \<in> set P'}" by simp
        then show ?thesis
          by (rule cover_step) (auto simp: P0_def mR_def)
      next
        case False
        then show ?thesis by (intro cover_mono_false) simp
      qed
    qed
    then show ?thesis unfolding u res_def by blast
  qed
qed

section \<open>The stack loop of the flood fill\<close>

lemma region_inb: "p \<in> region img s \<Longrightarrow> inb img p"
  by (induction rule: region.induct) auto

lemma region_color: "p \<in> region img s \<Longrightarrow> pixel img p = pixel img s"
  by (induction rule: region.induct) auto

lemma region_down:
  assumes "(x, y) \<in> region img s" "seg img (pixel img s) x y (y + int n)"
    "y + int n < int (height img)"
  shows "(x, y + int n) \<in> region img s"
  using assms(2,3)
proof (induction n)
  case 0
  with assms(1) show ?case by simp
next
  case (Suc n)
  then have "(x, y + int n) \<in> region img s" by (simp add: seg_def)
  moreover have "adjacent4 (x, y + int n) (x, y + int (Suc n))" by (simp add: adjacent4_def)
  moreover have "inb img (x, y + int (Suc n))"
    using region_inb [OF assms(1)] Suc.prems by (simp add: inb_def)
  moreover have "pixel img (x, y + int (Suc n)) = pixel img s"
    using Suc.prems(1) by (simp add: seg_def)
  ultimately show ?case by (rule region_step)
qed

lemma region_up:
  assumes "(x, y) \<in> region img s" "seg img (pixel img s) x (y - int n) y" "0 \<le> y - int n"
  shows "(x, y - int n) \<in> region img s"
  using assms(2,3)
proof (induction n)
  case 0
  with assms(1) show ?case by simp
next
  case (Suc n)
  then have "(x, y - int n) \<in> region img s" by (simp add: seg_def)
  moreover have "adjacent4 (x, y - int n) (x, y - int (Suc n))" by (simp add: adjacent4_def)
  moreover have "inb img (x, y - int (Suc n))"
    using region_inb [OF assms(1)] Suc.prems by (simp add: inb_def)
  moreover have "pixel img (x, y - int (Suc n)) = pixel img s"
    using Suc.prems(1) by (simp add: seg_def)
  ultimately show ?case by (rule region_step)
qed

text \<open>A vertical segment of the seed's colour that touches the region lies in it.\<close>

lemma region_seg:
  assumes e: "(x, y) \<in> region img s" and sg: "seg img (pixel img s) x lo hi"
    and r: "lo \<le> y" "y \<le> hi" "lo \<le> r" "r \<le> hi" and b: "0 \<le> lo" "hi < int (height img)"
  shows "(x, r) \<in> region img s"
proof (cases "y \<le> r")
  case True
  have "seg img (pixel img s) x y (y + int (nat (r - y)))"
    using sg r True by (simp add: seg_def)
  from region_down [OF e this] r b True show ?thesis by simp
next
  case False
  have "seg img (pixel img s) x (y - int (nat (y - r))) y"
    using sg r False by (simp add: seg_def)
  from region_up [OF e this] r b False show ?thesis by simp
qed

lemma inb_same_dims: "width img = width img0 \<Longrightarrow> height img = height img0 \<Longrightarrow> inb img p = inb img0 p"
  by (simp add: inb_def)

text \<open>Along a vertical segment inside the region, all pixels are filled or none is.\<close>

lemma filled_along:
  assumes v: "\<forall>p \<in> region img0 s. \<forall>q \<in> region img0 s.
         fst p = fst q \<and> \<bar>snd p - snd q\<bar> = 1 \<longrightarrow> (pixel img p = new) = (pixel img q = new)"
    and c: "\<forall>r. y \<le> r \<and> r \<le> y + int n \<longrightarrow> (x, r) \<in> region img0 s"
  shows "(pixel img (x, y + int n) = new) = (pixel img (x, y) = new)"
  using c
proof (induction n)
  case 0
  show ?case by simp
next
  case (Suc n)
  then have IH: "(pixel img (x, y + int n) = new) = (pixel img (x, y) = new)" by simp
  have "(x, y + int n) \<in> region img0 s" "(x, y + int (Suc n)) \<in> region img0 s"
    using Suc.prems by simp_all
  moreover have "fst (x, y + int n) = fst (x, y + int (Suc n)) \<and>
      \<bar>snd (x, y + int n) - snd (x, y + int (Suc n))\<bar> = 1" by simp
  ultimately have "(pixel img (x, y + int n) = new) = (pixel img (x, y + int (Suc n)) = new)"
    using v by blast
  with IH show ?case by simp
qed

lemma filled_between:
  assumes v: "\<forall>p \<in> region img0 s. \<forall>q \<in> region img0 s.
         fst p = fst q \<and> \<bar>snd p - snd q\<bar> = 1 \<longrightarrow> (pixel img p = new) = (pixel img q = new)"
    and c: "\<forall>r. min a b \<le> r \<and> r \<le> max a b \<longrightarrow> (x, r) \<in> region img0 s"
  shows "(pixel img (x, a) = new) = (pixel img (x, b) = new)"
proof (cases "a \<le> b")
  case True
  have "\<forall>r. a \<le> r \<and> r \<le> a + int (nat (b - a)) \<longrightarrow> (x, r) \<in> region img0 s"
    using c True by simp
  from filled_along [OF v this] True show ?thesis by simp
next
  case False
  have "\<forall>r. b \<le> r \<and> r \<le> b + int (nat (a - b)) \<longrightarrow> (x, r) \<in> region img0 s"
    using c False by simp
  from filled_along [OF v this] False show ?thesis by simp
qed

lemma floodFillInternal_spec:
  assumes wf: "wf_image img" and i: "inb img (x, y)"
  shows "\<exists>yt yb P. 0 \<le> yt \<and> yt \<le> y \<and> seg img old x yt (y - 1) \<and>
           (yt = 0 \<or> pixel img (x, yt - 1) \<noteq> old) \<and>
           scan_post x new old yt img stack False False
             (floodFillInternal x y img new old stack) yb P"
proof -
  from i have b: "0 \<le> x" "x < int (width img)" "0 \<le> y" "y < int (height img)"
    by (simp_all add: inb_def)
  define yt where "yt = walkUp x y img old"
  from walkUp_spec [OF wf b, of old]
  have up: "0 \<le> yt" "yt \<le> y" "seg img old x yt (y - 1)" "yt = 0 \<or> pixel img (x, yt - 1) \<noteq> old"
    by (simp_all add: yt_def)
  from up b have "yt \<le> int (height img)" by simp
  from scanDown_spec [OF wf b(1,2) up(1) this refl, of new old stack False False]
  obtain yb P where "scan_post x new old yt img stack False False
      (scanDown x new old yt img stack False False) yb P" by blast
  with up show ?thesis
    unfolding floodFillInternal_def yt_def [symmetric] by blast
qed

lemma fill_inv_pop:
  assumes inv: "fill_inv img0 s new img (e # rest)" and ne: "new \<noteq> pixel img0 s"
  defines "res \<equiv> floodFillInternal (fst e) (snd e) img new (pixel img0 s) rest"
  shows "fill_inv img0 s new (fst res) (snd res) \<and>
         (unfilled img0 (pixel img0 s) (fst res) \<subset> unfilled img0 (pixel img0 s) img \<or>
          unfilled img0 (pixel img0 s) (fst res) = unfilled img0 (pixel img0 s) img \<and>
          length (snd res) < length (e # rest))"
proof -
  define old where "old = pixel img0 s"
  define C where "C = region img0 s"
  obtain x y where e: "e = (x, y)" by (cases e)
  define img' where "img' = fst res"
  define stack' where "stack' = snd res"
  note I = inv [unfolded fill_inv_def, folded old_def C_def]
  from I have sinb: "inb img0 s" and wf: "wf_image img"
    and w: "width img = width img0" and h: "height img = height img0" by blast+
  from I have keep: "\<forall>p. inb img0 p \<longrightarrow> pixel img p = pixel img0 p \<or> p \<in> C \<and> pixel img p = new"
    by blast
  have keepR: "pixel img p = pixel img0 p \<or> p \<in> C \<and> pixel img p = new" if "inb img0 p" for p
    using keep that by blast
  from I have stk: "set (e # rest) \<subseteq> C" by blast
  from I have vert: "\<forall>p \<in> C. \<forall>q \<in> C.
      fst p = fst q \<and> \<bar>snd p - snd q\<bar> = 1 \<longrightarrow> (pixel img p = new) = (pixel img q = new)" by blast
  from I have cov: "\<forall>q \<in> C. pixel img q = old \<longrightarrow>
      covered img0 old (e # rest) q \<or> (\<forall>p \<in> C. adjacent4 p q \<longrightarrow> pixel img p = old)" by blast
  from I have sd: "pixel img s = new \<or> covered img0 old (e # rest) s" by blast
  have inbeq: "inb img p = inb img0 p" for p by (simp add: inb_def w h)
  have Cinb: "inb img0 p" if "p \<in> C" for p using that region_inb unfolding C_def by blast
  have Cold: "pixel img0 p = old" if "p \<in> C" for p
    using that region_color unfolding C_def old_def by blast
  have sC: "s \<in> C" unfolding C_def using sinb by (rule region_seed)
  have eC: "(x, y) \<in> C" using stk e by simp
  have einb: "inb img (x, y)" using Cinb [OF eC] by (simp add: inbeq)
  then have xy: "0 \<le> x" "x < int (width img)" "0 \<le> y" "y < int (height img)"
    by (simp_all add: inb_def)
  have two: "pixel img p = old \<or> pixel img p = new" if "p \<in> C" for p
    using keep Cinb [OF that] Cold [OF that] by metis
  have old0: "pixel img0 p = old" if "inb img0 p" "pixel img p = old" for p
    using keep that ne unfolding old_def by metis
  have nn: "new \<noteq> old" using ne by (simp add: old_def)

  from floodFillInternal_spec [OF wf einb, of old new rest]
  obtain yt yb P where up: "0 \<le> yt" "yt \<le> y" "seg img old x yt (y - 1)"
      "yt = 0 \<or> pixel img (x, yt - 1) \<noteq> old"
    and post: "scan_post x new old yt img rest False False res yb P"
    unfolding res_def e old_def by auto
  note q = post [unfolded scan_post_def, folded img'_def stack'_def]
  from q have yb: "yt \<le> yb" "yb \<le> int (height img)" by blast+
  from q have sg: "seg img old x yt (yb - 1)" by blast
  from q have stop: "yb < int (height img) \<longrightarrow> pixel img (x, yb) \<noteq> old" by blast
  from q have wf': "wf_image img'" and w': "width img' = width img0" and h': "height img' = height img0"
    by (simp_all add: w h)
  define inR where "inR = (\<lambda>z :: int \<times> int. fst z = x \<and> yt \<le> snd z \<and> snd z < yb)"
  from q have pix: "pixel img' z = (if inR z then new else pixel img z)" if "inb img0 z" for z
    using that unfolding inR_def inbeq [symmetric] by blast
  from q have stk': "stack' = P @ rest" by blast
  from q have ent: "\<forall>e \<in> set P. \<exists>r. yt \<le> r \<and> r < yb \<and>
         (e = (x - 1, r) \<and> 0 < x \<or> e = (x + 1, r) \<and> x < int (width img) - 1) \<and>
         pixel img e = old" by blast
  from q have covL: "cover (\<lambda>r. 0 < x \<and> pixel img (x - 1, r) = old) False yt yb {r. (x - 1, r) \<in> set P}"
    by blast
  from q have covR: "cover (\<lambda>r. x < int (width img) - 1 \<and> pixel img (x + 1, r) = old) False yt yb
        {r. (x + 1, r) \<in> set P}" by blast

  have rowinb: "inb img0 (c, r)" if "0 \<le> c" "c < int (width img)" "yt \<le> r" "r < int (height img)" for c r
    using that up by (simp add: inb_def w h)

  define hi where "hi = max y (yb - 1)"
  have hib: "hi < int (height img0)" "yt \<le> hi" "y \<le> hi" using xy yb up by (simp_all add: hi_def h)
  have colold: "seg img0 old x yt hi"
    unfolding seg_def
  proof (intro allI impI)
    fix r assume r: "yt \<le> r \<and> r \<le> hi"
    then have ri: "inb img0 (x, r)" using hib xy by (intro rowinb) (simp_all add: h)
    consider "r = y" | "r < y" | "y < r" by linarith
    then show "pixel img0 (x, r) = old"
    proof cases
      case 1
      then show ?thesis using Cold [OF eC] by simp
    next
      case 2
      with r up(3) have "pixel img (x, r) = old" by (simp add: seg_def)
      then show ?thesis by (rule old0 [OF ri])
    next
      case 3
      with r have "r \<le> yb - 1" unfolding hi_def by linarith
      with r sg have "pixel img (x, r) = old" by (simp add: seg_def)
      then show ?thesis by (rule old0 [OF ri])
    qed
  qed
  have colC: "(x, r) \<in> C" if "yt \<le> r" "r \<le> hi" for r
    unfolding C_def
    by (rule region_seg [OF eC [unfolded C_def] colold [unfolded old_def] up(2) hib(3) that up(1) hib(1)])
  have RC: "z \<in> C \<and> pixel img z = old" if "inR z" for z
  proof -
    from that obtain r where z: "z = (x, r)" "yt \<le> r" "r < yb"
      by (cases z) (auto simp: inR_def)
    then have "r \<le> hi" unfolding hi_def by linarith
    with z colC have "(x, r) \<in> C" by blast
    moreover from z sg have "pixel img (x, r) = old" by (simp add: seg_def)
    ultimately show ?thesis using z(1) by simp
  qed
  have topnew: "pixel img (x, yt - 1) = new" if "(x, yt - 1) \<in> C"
  proof -
    from Cinb [OF that] have "yt \<noteq> 0" by (auto simp: inb_def)
    with up(4) two [OF that] show ?thesis by simp
  qed
  have botnew: "pixel img (x, yb) = new" if "(x, yb) \<in> C"
  proof -
    from Cinb [OF that] have "yb < int (height img)" by (simp add: inb_def h)
    with stop two [OF that] show ?thesis by simp
  qed
  have edge: "pixel img z = new" if "z \<in> C" "\<not> inR z" "inR z'" "fst z = fst z'" "\<bar>snd z - snd z'\<bar> = 1" for z z'
  proof -
    from that have "z = (x, yt - 1) \<or> z = (x, yb)" by (auto simp: inR_def prod_eq_iff)
    with that(1) topnew botnew show ?thesis by auto
  qed

  have AorB: "pixel img (x, y) = new \<and> yb = yt \<or> pixel img (x, y) = old \<and> inR (x, y)"
    using two [OF eC]
  proof
    assume o: "pixel img (x, y) = old"
    have "y < yb"
    proof (rule ccontr)
      assume "\<not> y < yb"
      then have le: "yb \<le> y" by simp
      with xy stop have "pixel img (x, yb) \<noteq> old" by simp
      moreover have "pixel img (x, yb) = old"
      proof (cases "yb = y")
        case True
        with o show ?thesis by simp
      next
        case False
        with le yb up(3) show ?thesis by (simp add: seg_def)
      qed
      ultimately show False by simp
    qed
    with o up show ?thesis by (simp add: inR_def)
  next
    assume n: "pixel img (x, y) = new"
    have yty: "yt = y"
    proof (rule ccontr)
      assume "yt \<noteq> y"
      with up have lt: "yt < y" by simp
      then have c: "(x, y - 1) \<in> C" using hib by (intro colC) simp_all
      from lt up(3) have "pixel img (x, y - 1) = old" by (simp add: seg_def)
      moreover from vert [rule_format, OF c eC]
      have "(pixel img (x, y - 1) = new) = (pixel img (x, y) = new)" by simp
      ultimately show False using n nn by simp
    qed
    have "yb = yt"
    proof (rule ccontr)
      assume "yb \<noteq> yt"
      with yb yty have "y \<le> yb - 1" by simp
      with sg yty have "pixel img (x, y) = old" by (simp add: seg_def)
      with n nn show False by simp
    qed
    with n show ?thesis by simp
  qed

  have PC: "set P \<subseteq> C"
  proof
    fix e' assume "e' \<in> set P"
    with ent obtain r where r: "yt \<le> r" "r < yb"
      "e' = (x - 1, r) \<and> 0 < x \<or> e' = (x + 1, r) \<and> x < int (width img) - 1"
      "pixel img e' = old" by blast
    have xr: "(x, r) \<in> C" using RC [of "(x, r)"] r by (simp add: inR_def)
    have adj: "adjacent4 (x, r) e'" using r(3) by (auto simp: adjacent4_def)
    have rh: "r < int (height img)" using r yb by simp
    have ei: "inb img0 e'"
      using r(3)
    proof
      assume "e' = (x - 1, r) \<and> 0 < x"
      then show ?thesis using rowinb [of "x - 1" r] r rh xy by simp
    next
      assume "e' = (x + 1, r) \<and> x < int (width img) - 1"
      then show ?thesis using rowinb [of "x + 1" r] r rh xy by simp
    qed
    have "pixel img0 e' = pixel img0 s" using old0 [OF ei r(4)] by (simp add: old_def)
    with xr adj ei show "e' \<in> C" unfolding C_def by (rule region_step)
  qed

  have covSide: "covered img0 old (P @ rest) (c, r)"
    if cv: "cover (\<lambda>r. g \<and> pixel img (c, r) = old) False yt yb {r. (c, r) \<in> set P}"
      and r: "yt \<le> r" "r < yb" and g: "g" and po: "pixel img (c, r) = old"
      and c: "0 \<le> c" "c < int (width img)" for c r g
  proof -
    from cv r g po obtain r' where r': "yt \<le> r'" "r' \<le> r" "(c, r') \<in> set P"
      "\<forall>k. r' \<le> k \<and> k \<le> r \<longrightarrow> g \<and> pixel img (c, k) = old"
      unfolding cover_def by blast
    have "seg img0 old c (min r' r) (max r' r)"
      unfolding seg_def
    proof (intro allI impI)
      fix k assume k: "min r' r \<le> k \<and> k \<le> max r' r"
      with r' have kk: "r' \<le> k \<and> k \<le> r" by simp
      with r' have "pixel img (c, k) = old" by blast
      moreover have "inb img0 (c, k)" using kk r r' c yb by (intro rowinb) simp_all
      ultimately show "pixel img0 (c, k) = old" by (intro old0)
    qed
    with r'(3) show ?thesis unfolding covered_def by (intro bexI [of _ "(c, r')"]) simp_all
  qed

  have cov_e: "inR z"
    if zC: "z \<in> C" and zold: "pixel img z = old" and fx: "fst z = x"
      and sgz: "seg img0 old x (min y (snd z)) (max y (snd z))" for z
  proof -
    define r where "r = snd z"
    have z: "z = (x, r)" using fx by (simp add: r_def prod_eq_iff)
    from Cinb [OF zC] have rb: "0 \<le> r" "r < int (height img0)" by (simp_all add: inb_def r_def)
    have allC: "(x, k) \<in> C" if "min y r \<le> k \<and> k \<le> max y r" for k
      unfolding C_def
      using that rb xy
      by (intro region_seg [OF eC [unfolded C_def] sgz [unfolded old_def r_def [symmetric]]])
        (simp_all add: h)
    have same: "(pixel img (x, k) = new) = (pixel img (x, r) = new)" if "min y r \<le> k \<and> k \<le> max y r" for k
    proof -
      have "\<forall>j. min k r \<le> j \<and> j \<le> max k r \<longrightarrow> (x, j) \<in> C"
      proof (intro allI impI)
        fix j assume "min k r \<le> j \<and> j \<le> max k r"
        with that have "min y r \<le> j \<and> j \<le> max y r" by linarith
        then show "(x, j) \<in> C" by (rule allC)
      qed
      from filled_between [OF vert [unfolded C_def] this [unfolded C_def]] show ?thesis .
    qed
    have oldk: "pixel img (x, k) = old" if "min y r \<le> k \<and> k \<le> max y r" for k
      using same [OF that] two [OF allC [OF that]] zold z nn by auto
    from oldk [of y] AorB nn have yR: "inR (x, y)" by auto
    then have yyb: "y < yb" by (simp add: inR_def)
    have "r < yb"
    proof (rule ccontr)
      assume "\<not> r < yb"
      with yyb have "min y r \<le> yb \<and> yb \<le> max y r" by simp
      from oldk [OF this] have "pixel img (x, yb) = old" .
      moreover from \<open>\<not> r < yb\<close> rb have "yb < int (height img)" by (simp add: h)
      ultimately show False using stop by simp
    qed
    moreover have "yt \<le> r"
    proof (rule ccontr)
      assume "\<not> yt \<le> r"
      with up have "min y r \<le> yt - 1 \<and> yt - 1 \<le> max y r" by simp
      from oldk [OF this] have "pixel img (x, yt - 1) = old" .
      moreover from \<open>\<not> yt \<le> r\<close> rb have "yt \<noteq> 0" by simp
      ultimately show False using up(4) by simp
    qed
    ultimately show ?thesis by (simp add: inR_def z)
  qed

  have inv': "fill_inv img0 s new img' stack'"
    unfolding fill_inv_def old_def [symmetric] C_def [symmetric]
  proof (intro conjI)
    show "inb img0 s" by (rule sinb)
    show "wf_image img'" by (rule wf')
    show "width img' = width img0" by (rule w')
    show "height img' = height img0" by (rule h')
    show "\<forall>p. inb img0 p \<longrightarrow> pixel img' p = pixel img0 p \<or> p \<in> C \<and> pixel img' p = new"
    proof (intro allI impI)
      fix p assume p: "inb img0 p"
      show "pixel img' p = pixel img0 p \<or> p \<in> C \<and> pixel img' p = new"
      proof (cases "inR p")
        case True
        with RC pix [OF p] show ?thesis by simp
      next
        case False
        with keepR [OF p] pix [OF p] show ?thesis by auto
      qed
    qed
    show "set stack' \<subseteq> C" using stk' PC stk by auto
    show "\<forall>p \<in> C. \<forall>q \<in> C.
      fst p = fst q \<and> \<bar>snd p - snd q\<bar> = 1 \<longrightarrow> (pixel img' p = new) = (pixel img' q = new)"
    proof (intro ballI impI)
      fix p q assume p: "p \<in> C" and q: "q \<in> C" and a: "fst p = fst q \<and> \<bar>snd p - snd q\<bar> = 1"
      note pp = pix [OF Cinb [OF p]] and pq = pix [OF Cinb [OF q]]
      consider "inR p" "inR q" | "inR p" "\<not> inR q" | "\<not> inR p" "inR q" | "\<not> inR p" "\<not> inR q"
        by blast
      then show "(pixel img' p = new) = (pixel img' q = new)"
      proof cases
        case 1
        with pp pq show ?thesis by simp
      next
        case 2
        from edge [OF q 2(2) 2(1)] a have "pixel img q = new" by (simp add: abs_minus_commute)
        with 2 pp pq show ?thesis by simp
      next
        case 3
        from edge [OF p 3(1) 3(2)] a have "pixel img p = new" by simp
        with 3 pp pq show ?thesis by simp
      next
        case 4
        with pp pq vert p q a show ?thesis by simp
      qed
    qed
    show "\<forall>q \<in> C. pixel img' q = old \<longrightarrow>
      covered img0 old stack' q \<or> (\<forall>p \<in> C. adjacent4 p q \<longrightarrow> pixel img' p = old)"
    proof (intro ballI impI)
      fix q assume q: "q \<in> C" and qo': "pixel img' q = old"
      note pq = pix [OF Cinb [OF q]]
      from pq qo' nn have nq: "\<not> inR q" and qo: "pixel img q = old" by (auto split: if_splits)
      from cov q qo have "covered img0 old (e # rest) q \<or> (\<forall>p \<in> C. adjacent4 p q \<longrightarrow> pixel img p = old)"
        by blast
      then show "covered img0 old stack' q \<or> (\<forall>p \<in> C. adjacent4 p q \<longrightarrow> pixel img' p = old)"
      proof
        assume "covered img0 old (e # rest) q"
        then have "(fst q = x \<and> seg img0 old x (min y (snd q)) (max y (snd q))) \<or> covered img0 old rest q"
          unfolding covered_def e by auto
        then show ?thesis
        proof
          assume "fst q = x \<and> seg img0 old x (min y (snd q)) (max y (snd q))"
          with cov_e [OF q qo] nq show ?thesis by blast
        next
          assume "covered img0 old rest q"
          then show ?thesis unfolding covered_def stk' by auto
        qed
      next
        assume nb: "\<forall>p \<in> C. adjacent4 p q \<longrightarrow> pixel img p = old"
        show ?thesis
        proof (cases "\<forall>p \<in> C. adjacent4 p q \<longrightarrow> pixel img' p = old")
          case True
          then show ?thesis by blast
        next
          case False
          then obtain p where p: "p \<in> C" "adjacent4 p q" "pixel img' p \<noteq> old" by blast
          with nb have po: "pixel img p = old" by blast
          with p pix [OF Cinb [OF p(1)]] have pR: "inR p" by (auto split: if_splits)
          from p(2) have "fst q = fst p \<and> \<bar>snd q - snd p\<bar> = 1 \<or> snd p = snd q \<and> \<bar>fst p - fst q\<bar> = 1"
            by (auto simp: adjacent4_def abs_minus_commute)
          then have "covered img0 old (P @ rest) q"
          proof
            assume "fst q = fst p \<and> \<bar>snd q - snd p\<bar> = 1"
            with edge [OF q nq pR] have "pixel img q = new" by simp
            with qo nn show ?thesis by simp
          next
            assume hz: "snd p = snd q \<and> \<bar>fst p - fst q\<bar> = 1"
            from pR have px: "fst p = x" "yt \<le> snd p" "snd p < yb" by (simp_all add: inR_def)
            from Cinb [OF q] have qi: "0 \<le> fst q" "fst q < int (width img)" by (simp_all add: inb_def w)
            from hz px have "fst q = x - 1 \<or> fst q = x + 1" by auto
            then show ?thesis
            proof
              assume l: "fst q = x - 1"
              then have qq: "q = (x - 1, snd p)" using hz by (simp add: prod_eq_iff)
              have "covered img0 old (P @ rest) (x - 1, snd p)"
                using qi l qo qq px by (intro covSide [OF covL]) simp_all
              then show ?thesis by (simp add: qq)
            next
              assume r: "fst q = x + 1"
              then have qq: "q = (x + 1, snd p)" using hz by (simp add: prod_eq_iff)
              have "covered img0 old (P @ rest) (x + 1, snd p)"
                using qi r qo qq px by (intro covSide [OF covR]) simp_all
              then show ?thesis by (simp add: qq)
            qed
          qed
          then show ?thesis by (simp add: stk')
        qed
      qed
    qed
    show "pixel img' s = new \<or> covered img0 old stack' s"
    proof -
      note ps = pix [OF sinb]
      have filled: "pixel img s = new \<Longrightarrow> pixel img' s = new" using ps by simp
      from sd show ?thesis
      proof
        assume "pixel img s = new"
        with filled show ?thesis by simp
      next
        assume "covered img0 old (e # rest) s"
        then have "(fst s = x \<and> seg img0 old x (min y (snd s)) (max y (snd s))) \<or> covered img0 old rest s"
          unfolding covered_def e by auto
        then show ?thesis
        proof
          assume a: "fst s = x \<and> seg img0 old x (min y (snd s)) (max y (snd s))"
          from two [OF sC] show ?thesis
          proof
            assume "pixel img s = old"
            from cov_e [OF sC this] a have "inR s" by blast
            with ps show ?thesis by simp
          next
            assume "pixel img s = new"
            with filled show ?thesis by simp
          qed
        next
          assume "covered img0 old rest s"
          then show ?thesis unfolding covered_def stk' by auto
        qed
      qed
    qed
  qed

  have meas: "unfilled img0 old img' \<subset> unfilled img0 old img \<or>
          unfilled img0 old img' = unfilled img0 old img \<and> length stack' < length (e # rest)"
    using AorB
  proof
    assume a: "pixel img (x, y) = new \<and> yb = yt"
    then have noR: "\<not> inR z" for z using yb by (simp add: inR_def)
    then have "unfilled img0 old img' = unfilled img0 old img"
      unfolding unfilled_def using pix by auto
    moreover have "P = []"
    proof (cases P)
      case (Cons e' P')
      with ent a show ?thesis by fastforce
    qed simp
    ultimately show ?thesis using stk' by simp
  next
    assume b: "pixel img (x, y) = old \<and> inR (x, y)"
    have "unfilled img0 old img' \<subseteq> unfilled img0 old img"
      unfolding unfilled_def using pix nn by (auto split: if_splits)
    moreover have "(x, y) \<in> unfilled img0 old img" using b Cinb [OF eC] by (simp add: unfilled_def)
    moreover have "(x, y) \<notin> unfilled img0 old img'"
      using b pix [OF Cinb [OF eC]] nn by (simp add: unfilled_def)
    ultimately show ?thesis by blast
  qed
  from inv' meas show ?thesis
    unfolding img'_def stack'_def old_def by simp
qed

lemma fill_inv_init:
  assumes "wf_image img0" "inb img0 s" "new \<noteq> pixel img0 s"
  shows "fill_inv img0 s new img0 [s]"
  unfolding fill_inv_def
proof (intro conjI)
  show "set [s] \<subseteq> region img0 s" using assms(2) by (simp add: region_seed)
  show "\<forall>p \<in> region img0 s. \<forall>q \<in> region img0 s.
      fst p = fst q \<and> \<bar>snd p - snd q\<bar> = 1 \<longrightarrow> (pixel img0 p = new) = (pixel img0 q = new)"
    using assms(3) by (auto dest: region_color)
  show "\<forall>q \<in> region img0 s. pixel img0 q = pixel img0 s \<longrightarrow>
      covered img0 (pixel img0 s) [s] q \<or>
      (\<forall>p \<in> region img0 s. adjacent4 p q \<longrightarrow> pixel img0 p = pixel img0 s)"
    by (auto dest: region_color)
  have "pixel img0 (fst s, r) = pixel img0 s" if "snd s \<le> r \<and> r \<le> snd s" for r
  proof -
    from that have "(fst s, r) = s" by (simp add: prod_eq_iff)
    then show ?thesis by simp
  qed
  then show "pixel img0 s = new \<or> covered img0 (pixel img0 s) [s] s"
    by (simp add: covered_def seg_def)
qed (use assms in simp_all)

lemma fill_inv_final:
  assumes inv: "fill_inv img0 s new img []" and ne: "new \<noteq> pixel img0 s"
  shows "wf_image img \<and> width img = width img0 \<and> height img = height img0 \<and>
    (\<forall>p. inb img0 p \<longrightarrow> pixel img p = (if p \<in> region img0 s then new else pixel img0 p))"
proof -
  note I = inv [unfolded fill_inv_def]
  from I have keep: "pixel img p = pixel img0 p \<or> p \<in> region img0 s \<and> pixel img p = new"
    if "inb img0 p" for p using that by blast
  from I have cov: "\<forall>q \<in> region img0 s. pixel img q = pixel img0 s \<longrightarrow>
      (\<forall>p \<in> region img0 s. adjacent4 p q \<longrightarrow> pixel img p = pixel img0 s)"
    by (simp add: covered_def)
  from I have sd: "pixel img s = new" by (simp add: covered_def)
  have all: "pixel img p = new" if "p \<in> region img0 s" for p
    using that
  proof (induction rule: region.induct)
    case region_seed
    show ?case by (rule sd)
  next
    case (region_step p q)
    have qC: "q \<in> region img0 s"
      using region_step.hyps(1,2,3,4) by (rule region.region_step)
    show ?case
    proof (rule ccontr)
      assume n: "pixel img q \<noteq> new"
      with keep [OF region_step.hyps(3)] region_step.hyps(4)
      have "pixel img q = pixel img0 s" by auto
      with cov qC region_step.hyps(1,2) have "pixel img p = pixel img0 s" by blast
      with region_step.IH ne show False by simp
    qed
  qed
  have "pixel img p = (if p \<in> region img0 s then new else pixel img0 p)" if "inb img0 p" for p
    using keep [OF that] all by auto
  with I show ?thesis by blast
qed

lemma finite_inb: "finite {p. inb img p}"
proof -
  have "{p. inb img p} \<subseteq> {0..<int (width img)} \<times> {0..<int (height img)}"
    by (auto simp: inb_def)
  then show ?thesis by (rule finite_subset) simp
qed

lemma finite_unfilled: "finite (unfilled img0 old img)"
  by (rule finite_subset [OF _ finite_inb [of img0]]) (auto simp: unfilled_def)

lemma fill_loop_terminates:
  assumes ne: "new \<noteq> pixel img0 s"
  shows "fill_inv img0 s new (fst st) (snd st) \<Longrightarrow>
    \<exists>img'. fill_loop new (pixel img0 s) (fst st) (snd st) = Some img' \<and> fill_inv img0 s new img' []"
  using wf_measures [of "[\<lambda>st. card (unfilled img0 (pixel img0 s) (fst st)), \<lambda>st. length (snd st)]"]
proof (induction st rule: wf_induct_rule)
  case (less st)
  obtain img stack where st: "st = (img, stack)" by (cases st)
  show ?case
  proof (cases stack)
    case Nil
    have "fill_loop new (pixel img0 s) img [] = Some img"
      by (subst fill_loop.simps) simp
    with less.prems show ?thesis by (simp add: st Nil)
  next
    case (Cons e rest)
    define res where "res = floodFillInternal (fst e) (snd e) img new (pixel img0 s) rest"
    from less.prems have inv: "fill_inv img0 s new img (e # rest)" by (simp add: st Cons)
    from fill_inv_pop [OF inv ne, folded res_def]
    have inv': "fill_inv img0 s new (fst res) (snd res)"
      and dec: "unfilled img0 (pixel img0 s) (fst res) \<subset> unfilled img0 (pixel img0 s) img \<or>
          unfilled img0 (pixel img0 s) (fst res) = unfilled img0 (pixel img0 s) img \<and>
          length (snd res) < length (e # rest)" by blast+
    from dec have "(res, st) \<in> measures [\<lambda>st. card (unfilled img0 (pixel img0 s) (fst st)),
        \<lambda>st. length (snd st)]"
    proof
      assume "unfilled img0 (pixel img0 s) (fst res) \<subset> unfilled img0 (pixel img0 s) img"
      then have "card (unfilled img0 (pixel img0 s) (fst res)) < card (unfilled img0 (pixel img0 s) img)"
        by (intro psubset_card_mono finite_unfilled)
      then show ?thesis by (simp add: st)
    next
      assume "unfilled img0 (pixel img0 s) (fst res) = unfilled img0 (pixel img0 s) img \<and>
          length (snd res) < length (e # rest)"
      then show ?thesis by (simp add: st Cons)
    qed
    from less.IH [OF this inv'] obtain img' where
      r: "fill_loop new (pixel img0 s) (fst res) (snd res) = Some img'" "fill_inv img0 s new img' []"
      by blast
    have "fill_loop new (pixel img0 s) img (e # rest) = fill_loop new (pixel img0 s) (fst res) (snd res)"
      by (subst fill_loop.simps) (simp add: Let_def res_def)
    with r show ?thesis by (simp add: st Cons)
  qed
qed

text \<open>
  The loop of \<^verbatim>\<open>floodFill\<close>, started on a well-formed bitmap with the seed on the
  stack and a new colour other than the seed's.
\<close>

lemma fill_loop_correct:
  assumes "wf_image img" "inb img s" "new \<noteq> pixel img s"
  shows "\<exists>img'. fill_loop new (pixel img s) img [s] = Some img' \<and>
    wf_image img' \<and> width img' = width img \<and> height img' = height img \<and>
    (\<forall>p. inb img p \<longrightarrow> pixel img' p = (if p \<in> region img s then new else pixel img p))"
proof -
  from fill_inv_init [OF assms] have "fill_inv img s new (fst (img, [s])) (snd (img, [s]))" by simp
  from fill_loop_terminates [OF assms(3) this]
  obtain img' where "fill_loop new (pixel img s) img [s] = Some img'" "fill_inv img s new img' []"
    by auto
  with fill_inv_final [OF this(2) assms(3)] show ?thesis by blast
qed

section \<open>Trimming transparent edges\<close>

lemma shl2_small: "0 \<le> v \<Longrightarrow> v * 4 < 2147483648 \<Longrightarrow> shl2 v = v * 4"
  by (simp add: shl2_def wrap32_def)

lemma alpha_read:
  assumes wf: "wf_image img" and small: "length (data img) < 2147483648" and i: "inb img (x, y)"
  shows "arrayGet (data img) (shl2 (y * int (width img)) + shl2 x + 3) = Some (alpha (pixel img (x, y)))"
proof -
  from i have b: "0 \<le> x" "x < int (width img)" "0 \<le> y" "y < int (height img)"
    by (simp_all add: inb_def)
  from cell_less(1) [OF b] have c: "y * int (width img) + x < int (height img) * int (width img)" .
  have len: "int (length (data img)) = 4 * (int (height img) * int (width img))"
    using wf by (simp add: wf_image_def)
  have yw: "0 \<le> y * int (width img)" using b by simp
  have "(y * int (width img)) * 4 < 2147483648" "x * 4 < 2147483648"
    using c len small b yw by linarith+
  then have s: "shl2 (y * int (width img)) = (y * int (width img)) * 4" "shl2 x = x * 4"
    using yw b by (simp_all add: shl2_small)
  have o: "shl2 (y * int (width img)) + shl2 x + 3 = int (offset img (x, y)) + 3"
    unfolding s using offset_int [OF i] by simp
  have "offset img (x, y) + 3 < length (data img)" by (rule offset_bound [OF wf i])
  then show ?thesis
    unfolding o by (simp add: arrayGet_def alpha_def pixel_def nat_add_distrib)
qed

lemma rowBlank_iff:
  assumes wf: "wf_image img" and small: "length (data img) < 2147483648"
    and y: "0 \<le> y" "y < int (height img)"
  shows "rowBlank img (width img) y \<longleftrightarrow>
    (\<forall>x. 0 \<le> x \<and> x < int (width img) \<longrightarrow> alpha (pixel img (x, y)) = 0)"
proof -
  have r: "arrayGet (data img) (shl2 (y * int (width img)) + shl2 (int n) + 3) =
      Some (alpha (pixel img (int n, y)))" if "n < width img" for n
    using that y by (intro alpha_read [OF wf small]) (simp add: inb_def)
  have "rowBlank img (width img) y \<longleftrightarrow> (\<forall>n < width img. alpha (pixel img (int n, y)) = 0)"
    unfolding rowBlank_def list_all_iff using r by auto
  also have "\<dots> \<longleftrightarrow> (\<forall>x. 0 \<le> x \<and> x < int (width img) \<longrightarrow> alpha (pixel img (x, y)) = 0)"
  proof
    assume a: "\<forall>n < width img. alpha (pixel img (int n, y)) = 0"
    show "\<forall>x. 0 \<le> x \<and> x < int (width img) \<longrightarrow> alpha (pixel img (x, y)) = 0"
    proof (intro allI impI)
      fix x :: int assume "0 \<le> x \<and> x < int (width img)"
      then have "nat x < width img" "int (nat x) = x" by linarith+
      with a show "alpha (pixel img (x, y)) = 0" by metis
    qed
  next
    assume "\<forall>x. 0 \<le> x \<and> x < int (width img) \<longrightarrow> alpha (pixel img (x, y)) = 0"
    then show "\<forall>n < width img. alpha (pixel img (int n, y)) = 0" by simp
  qed
  finally show ?thesis .
qed

lemma columnBlank_iff:
  assumes wf: "wf_image img" and small: "length (data img) < 2147483648"
    and x: "0 \<le> x" "x < int (width img)" and tb: "0 \<le> t" "b \<le> int (height img)"
  shows "columnBlank img (width img) x t b \<longleftrightarrow>
    (\<forall>y. t \<le> y \<and> y < b \<longrightarrow> alpha (pixel img (x, y)) = 0)"
proof -
  have r: "arrayGet (data img) (shl2 (y * int (width img)) + shl2 x + 3) =
      Some (alpha (pixel img (x, y)))" if "t \<le> y" "y < b" for y
    using that x tb by (intro alpha_read [OF wf small]) (simp add: inb_def)
  show ?thesis
    unfolding columnBlank_def list_all_iff using r by auto
qed

lemma trimTop_spec:
  "t0 \<le> b \<Longrightarrow> t0 \<le> trimTop img w t0 b \<and> trimTop img w t0 b \<le> b \<and>
     (\<forall>y. t0 \<le> y \<and> y < trimTop img w t0 b \<longrightarrow> rowBlank img w y) \<and>
     (trimTop img w t0 b < b \<longrightarrow> \<not> rowBlank img w (trimTop img w t0 b))"
proof (induction img w t0 b rule: trimTop.induct)
  case (1 img w t b)
  show ?case
  proof (cases "t < b \<and> rowBlank img w t")
    case True
    define T where "T = trimTop img w (t + 1) b"
    from True have u: "trimTop img w t b = T" unfolding T_def by (subst trimTop.simps) simp
    from True have tb: "t + 1 \<le> b" by simp
    note IH = "1.IH" [OF True tb, folded T_def]
    from IH have i: "t + 1 \<le> T" "T \<le> b" "T < b \<longrightarrow> \<not> rowBlank img w T" by blast+
    from IH have i3: "rowBlank img w y" if "t + 1 \<le> y" "y < T" for y using that by blast
    have "rowBlank img w y" if "t \<le> y \<and> y < T" for y
    proof (cases "y = t")
      case True
      with \<open>t < b \<and> rowBlank img w t\<close> show ?thesis by blast
    next
      case False
      with that have "t + 1 \<le> y" "y < T" by linarith+
      then show ?thesis by (rule i3)
    qed
    moreover have "t \<le> T" using i by linarith
    ultimately show ?thesis unfolding u using i by blast
  next
    case False
    then have u: "trimTop img w t b = t" by (subst trimTop.simps) simp
    have "\<forall>y. t \<le> y \<and> y < t \<longrightarrow> rowBlank img w y" by linarith
    moreover have "t < b \<longrightarrow> \<not> rowBlank img w t" using False by blast
    ultimately show ?thesis unfolding u using "1.prems" by blast
  qed
qed

lemma trimBottom_spec:
  "trimBottom img w t b0 \<le> b0 \<and> (t < b0 \<longrightarrow> t < trimBottom img w t b0) \<and>
     (\<forall>y. trimBottom img w t b0 \<le> y \<and> y < b0 \<longrightarrow> rowBlank img w y) \<and>
     (t < trimBottom img w t b0 - 1 \<longrightarrow> \<not> rowBlank img w (trimBottom img w t b0 - 1))"
proof (induction img w t b0 rule: trimBottom.induct)
  case (1 img w t b)
  show ?case
  proof (cases "b - 1 > t \<and> rowBlank img w (b - 1)")
    case True
    define T where "T = trimBottom img w t (b - 1)"
    from True have u: "trimBottom img w t b = T" unfolding T_def by (subst trimBottom.simps) simp
    note IH = "1.IH" [OF True, folded T_def]
    from IH have i: "T \<le> b - 1" "t < b - 1 \<longrightarrow> t < T" "t < T - 1 \<longrightarrow> \<not> rowBlank img w (T - 1)"
      by blast+
    from IH have i3: "rowBlank img w y" if "T \<le> y" "y < b - 1" for y using that by blast
    have "rowBlank img w y" if "T \<le> y \<and> y < b" for y
    proof (cases "y = b - 1")
      case True
      with \<open>b - 1 > t \<and> rowBlank img w (b - 1)\<close> show ?thesis by blast
    next
      case False
      with that have "T \<le> y" "y < b - 1" by linarith+
      then show ?thesis by (rule i3)
    qed
    moreover have "T \<le> b" "t < T" using i True by linarith+
    ultimately show ?thesis unfolding u using i by blast
  next
    case False
    then have u: "trimBottom img w t b = b" by (subst trimBottom.simps) simp
    have "\<forall>y. b \<le> y \<and> y < b \<longrightarrow> rowBlank img w y" by linarith
    moreover have "t < b - 1 \<longrightarrow> \<not> rowBlank img w (b - 1)" using False by blast
    ultimately show ?thesis unfolding u by blast
  qed
qed

lemma trimLeft_spec:
  "l0 \<le> r \<Longrightarrow> l0 \<le> trimLeft img w t b l0 r \<and> trimLeft img w t b l0 r \<le> r \<and>
     (\<forall>x. l0 \<le> x \<and> x < trimLeft img w t b l0 r \<longrightarrow> columnBlank img w x t b) \<and>
     (trimLeft img w t b l0 r < r \<longrightarrow> \<not> columnBlank img w (trimLeft img w t b l0 r) t b)"
proof (induction img w t b l0 r rule: trimLeft.induct)
  case (1 img w t b l r)
  show ?case
  proof (cases "l < r \<and> columnBlank img w l t b")
    case True
    define T where "T = trimLeft img w t b (l + 1) r"
    from True have u: "trimLeft img w t b l r = T" unfolding T_def by (subst trimLeft.simps) simp
    from True have lr: "l + 1 \<le> r" by simp
    note IH = "1.IH" [OF True lr, folded T_def]
    from IH have i: "l + 1 \<le> T" "T \<le> r" "T < r \<longrightarrow> \<not> columnBlank img w T t b" by blast+
    from IH have i3: "columnBlank img w x t b" if "l + 1 \<le> x" "x < T" for x using that by blast
    have "columnBlank img w x t b" if "l \<le> x \<and> x < T" for x
    proof (cases "x = l")
      case True
      with \<open>l < r \<and> columnBlank img w l t b\<close> show ?thesis by blast
    next
      case False
      with that have "l + 1 \<le> x" "x < T" by linarith+
      then show ?thesis by (rule i3)
    qed
    moreover have "l \<le> T" using i by linarith
    ultimately show ?thesis unfolding u using i by blast
  next
    case False
    then have u: "trimLeft img w t b l r = l" by (subst trimLeft.simps) simp
    have "\<forall>x. l \<le> x \<and> x < l \<longrightarrow> columnBlank img w x t b" by linarith
    moreover have "l < r \<longrightarrow> \<not> columnBlank img w l t b" using False by blast
    ultimately show ?thesis unfolding u using "1.prems" by blast
  qed
qed

lemma trimRight_spec:
  "trimRight img w t b l r0 \<le> r0 \<and> (l < r0 \<longrightarrow> l < trimRight img w t b l r0) \<and>
     (\<forall>x. trimRight img w t b l r0 \<le> x \<and> x < r0 \<longrightarrow> columnBlank img w x t b) \<and>
     (l < trimRight img w t b l r0 - 1 \<longrightarrow> \<not> columnBlank img w (trimRight img w t b l r0 - 1) t b)"
proof (induction img w t b l r0 rule: trimRight.induct)
  case (1 img w t b l r)
  show ?case
  proof (cases "r - 1 > l \<and> columnBlank img w (r - 1) t b")
    case True
    define T where "T = trimRight img w t b l (r - 1)"
    from True have u: "trimRight img w t b l r = T" unfolding T_def by (subst trimRight.simps) simp
    note IH = "1.IH" [OF True, folded T_def]
    from IH have i: "T \<le> r - 1" "l < r - 1 \<longrightarrow> l < T" "l < T - 1 \<longrightarrow> \<not> columnBlank img w (T - 1) t b"
      by blast+
    from IH have i3: "columnBlank img w x t b" if "T \<le> x" "x < r - 1" for x using that by blast
    have "columnBlank img w x t b" if "T \<le> x \<and> x < r" for x
    proof (cases "x = r - 1")
      case True
      with \<open>r - 1 > l \<and> columnBlank img w (r - 1) t b\<close> show ?thesis by blast
    next
      case False
      with that have "T \<le> x" "x < r - 1" by linarith+
      then show ?thesis by (rule i3)
    qed
    moreover have "T \<le> r" "l < T" using i True by linarith+
    ultimately show ?thesis unfolding u using i by blast
  next
    case False
    then have u: "trimRight img w t b l r = r" by (subst trimRight.simps) simp
    have "\<forall>x. r \<le> x \<and> x < r \<longrightarrow> columnBlank img w x t b" by linarith
    moreover have "l < r - 1 \<longrightarrow> \<not> columnBlank img w (r - 1) t b" using False by blast
    ultimately show ?thesis unfolding u by blast
  qed
qed

lemma finite_opaque: "finite (opaque img)"
  by (rule finite_subset [OF _ finite_inb [of img]]) (auto simp: opaque_def)

lemma getHitBounds_empty:
  assumes wf: "wf_raster raster" and e: "opaque (raster_imageData raster) = {}"
  shows "rect_width (getHitBounds raster) = 0 \<and> rect_height (getHitBounds raster) = 0"
proof -
  define img where "img = raster_imageData raster"
  define w where "w = raster_width raster"
  define h where "h = int (height img)"
  from wf have ww: "w = width img" and wfi: "wf_image img" and small: "length (data img) < 2147483648"
    by (simp_all add: wf_raster_def img_def w_def)
  have z: "alpha (pixel img (x, y)) = 0" if "0 \<le> x" "x < int (width img)" "0 \<le> y" "y < h" for x y
  proof (rule ccontr)
    assume "alpha (pixel img (x, y)) \<noteq> 0"
    with that have "(x, y) \<in> opaque img" by (simp add: opaque_def inb_def h_def)
    with e show False by (simp add: img_def)
  qed
  have rb: "rowBlank img w y" if "0 \<le> y" "y < h" for y
    unfolding ww using that z by (subst rowBlank_iff [OF wfi small]) (auto simp: h_def)
  define t where "t = trimTop img w 0 h"
  have h0: "0 \<le> h" by (simp add: h_def)
  from trimTop_spec [OF h0, of img w, folded t_def]
  have t: "0 \<le> t" "t \<le> h" "t < h \<longrightarrow> \<not> rowBlank img w t" by blast+
  with rb have th: "t = h" by force
  define b where "b = trimBottom img w t h"
  have bh: "b = h" unfolding b_def th by (subst trimBottom.simps) simp
  have cb: "columnBlank img w x h h" for x by (simp add: columnBlank_def)
  define l where "l = trimLeft img w t b 0 (int (width img))"
  have w0: "0 \<le> int (width img)" by simp
  from trimLeft_spec [OF w0, of img w t b, folded l_def]
  have l: "l \<le> int (width img)" "l < int (width img) \<longrightarrow> \<not> columnBlank img w l t b" by blast+
  with cb have lw: "l = int (width img)" unfolding th bh by force
  define r where "r = trimRight img w t b l (int (width img))"
  have rw: "r = int (width img)" unfolding r_def lw by (subst trimRight.simps) simp
  have "getHitBounds raster = \<lparr>rect_x = l, rect_y = t, rect_width = r - l, rect_height = b - t\<rparr>"
    unfolding l_def r_def b_def t_def h_def w_def img_def getHitBounds_def Let_def
    by (rule refl)
  then show ?thesis by (simp add: rw lw bh th)
qed

lemma getHitBounds_nonempty:
  assumes wf: "wf_raster raster" and ne: "opaque (raster_imageData raster) \<noteq> {}"
  defines "Op \<equiv> opaque (raster_imageData raster)"
  shows "rect_x (getHitBounds raster) = Min (fst ` Op) \<and>
         rect_y (getHitBounds raster) = Min (snd ` Op) \<and>
         rect_x (getHitBounds raster) + rect_width (getHitBounds raster) - 1 = Max (fst ` Op) \<and>
         rect_y (getHitBounds raster) + rect_height (getHitBounds raster) - 1 = Max (snd ` Op)"
proof -
  define img where "img = raster_imageData raster"
  define w where "w = raster_width raster"
  define h where "h = int (height img)"
  define wi where "wi = int (width img)"
  from wf have ww: "w = width img" and wfi: "wf_image img" and small: "length (data img) < 2147483648"
    by (simp_all add: wf_raster_def img_def w_def)
  have Op: "Op = opaque img" by (simp add: Op_def img_def)
  have Oiff: "(x, y) \<in> Op \<longleftrightarrow> 0 \<le> x \<and> x < wi \<and> 0 \<le> y \<and> y < h \<and> alpha (pixel img (x, y)) \<noteq> 0"
    for x y by (auto simp: Op opaque_def inb_def h_def wi_def)
  have rb: "rowBlank img w y \<longleftrightarrow> (\<forall>x. (x, y) \<notin> Op)" if "0 \<le> y" "y < h" for y
    unfolding ww using that
    by (subst rowBlank_iff [OF wfi small]) (auto simp: h_def Oiff wi_def)
  have cb: "columnBlank img w x t b \<longleftrightarrow> (\<forall>y. t \<le> y \<and> y < b \<longrightarrow> (x, y) \<notin> Op)"
    if "0 \<le> x" "x < wi" "0 \<le> t" "b \<le> h" for x t b
    unfolding ww using that
    by (subst columnBlank_iff [OF wfi small]) (auto simp: h_def Oiff wi_def)
  from ne obtain x0 y0 where p0: "(x0, y0) \<in> Op" unfolding Op_def by (cases "opaque (raster_imageData raster) = {}") auto
  then have b0: "0 \<le> x0" "x0 < wi" "0 \<le> y0" "y0 < h" by (simp_all add: Oiff)
  define t where "t = trimTop img w 0 h"
  have h0: "0 \<le> h" by (simp add: h_def)
  from trimTop_spec [OF h0, of img w, folded t_def]
  have t: "0 \<le> t" "t \<le> h" "t < h \<longrightarrow> \<not> rowBlank img w t"
    and tblank: "\<And>y. 0 \<le> y \<Longrightarrow> y < t \<Longrightarrow> rowBlank img w y" by blast+
  have ty0: "t \<le> y0"
  proof (rule ccontr)
    assume "\<not> t \<le> y0"
    then have "rowBlank img w y0" using b0 by (intro tblank) simp_all
    with rb [OF b0(3,4)] p0 show False by blast
  qed
  with b0 have tlt: "t < h" by simp
  with t have tnb: "\<not> rowBlank img w t" by simp
  then obtain xt where xt: "(xt, t) \<in> Op" using rb [OF t(1) tlt] by blast
  define b where "b = trimBottom img w t h"
  from trimBottom_spec [of img w t h, folded b_def] tlt
  have b: "b \<le> h" "t < b" "t < b - 1 \<longrightarrow> \<not> rowBlank img w (b - 1)"
    and bblank: "\<And>y. b \<le> y \<Longrightarrow> y < h \<Longrightarrow> rowBlank img w y" by blast+
  have bnb: "\<not> rowBlank img w (b - 1)"
  proof (cases "t < b - 1")
    case True
    with b show ?thesis by simp
  next
    case False
    with b have "b - 1 = t" by simp
    with tnb show ?thesis by simp
  qed
  then obtain xb where xb: "(xb, b - 1) \<in> Op" using rb [of "b - 1"] t b by force
  have rows: "t \<le> y \<and> y < b" if "(x, y) \<in> Op" for x y
  proof -
    from that have yb: "0 \<le> y" "y < h" by (simp_all add: Oiff)
    have "t \<le> y"
    proof (rule ccontr)
      assume "\<not> t \<le> y"
      then have "rowBlank img w y" using yb by (intro tblank) simp_all
      with rb [OF yb] that show False by blast
    qed
    moreover have "y < b"
    proof (rule ccontr)
      assume "\<not> y < b"
      then have "rowBlank img w y" using yb by (intro bblank) simp_all
      with rb [OF yb] that show False by blast
    qed
    ultimately show ?thesis by simp
  qed
  define l where "l = trimLeft img w t b 0 wi"
  have w0: "0 \<le> wi" by (simp add: wi_def)
  from trimLeft_spec [OF w0, of img w t b, folded l_def]
  have l: "0 \<le> l" "l \<le> wi" "l < wi \<longrightarrow> \<not> columnBlank img w l t b"
    and lblank: "\<And>x. 0 \<le> x \<Longrightarrow> x < l \<Longrightarrow> columnBlank img w x t b" by blast+
  have cols_l: "l \<le> x" if "(x, y) \<in> Op" for x y
  proof (rule ccontr)
    assume n: "\<not> l \<le> x"
    from that have xb: "0 \<le> x" "x < wi" by (simp_all add: Oiff)
    from n xb have "columnBlank img w x t b" by (intro lblank) simp_all
    with cb [OF xb t(1) b(1)] rows [OF that] that show False by blast
  qed
  from cols_l [OF xt] xt have llt: "l < wi" by (simp add: Oiff)
  with l have lnb: "\<not> columnBlank img w l t b" by simp
  then obtain yl where yl: "(l, yl) \<in> Op" using cb [OF l(1) llt t(1) b(1)] by blast
  define r where "r = trimRight img w t b l wi"
  from trimRight_spec [of img w t b l wi, folded r_def] llt
  have r: "r \<le> wi" "l < r" "l < r - 1 \<longrightarrow> \<not> columnBlank img w (r - 1) t b"
    and rblank: "\<And>x. r \<le> x \<Longrightarrow> x < wi \<Longrightarrow> columnBlank img w x t b" by blast+
  have rnb: "\<not> columnBlank img w (r - 1) t b"
  proof (cases "l < r - 1")
    case True
    with r show ?thesis by simp
  next
    case False
    with r have "r - 1 = l" by simp
    with lnb show ?thesis by simp
  qed
  then obtain yr where yr: "(r - 1, yr) \<in> Op" using cb [of "r - 1" t b] l r t b by force
  have cols_r: "x < r" if "(x, y) \<in> Op" for x y
  proof (rule ccontr)
    assume n: "\<not> x < r"
    from that have xb: "0 \<le> x" "x < wi" by (simp_all add: Oiff)
    from n xb have "columnBlank img w x t b" by (intro rblank) simp_all
    with cb [OF xb t(1) b(1)] rows [OF that] that show False by blast
  qed
  have g: "getHitBounds raster = \<lparr>rect_x = l, rect_y = t, rect_width = r - l, rect_height = b - t\<rparr>"
    unfolding l_def r_def b_def t_def wi_def h_def w_def img_def getHitBounds_def Let_def
    by (rule refl)
  have fin: "finite (fst ` Op)" "finite (snd ` Op)" unfolding Op using finite_opaque by simp_all
  have "Min (fst ` Op) = l"
  proof (rule Min_eqI [OF fin(1)])
    fix v assume "v \<in> fst ` Op"
    then obtain y where "(v, y) \<in> Op" by force
    then show "l \<le> v" by (rule cols_l)
  next
    from yl show "l \<in> fst ` Op" by force
  qed
  moreover have "Min (snd ` Op) = t"
  proof (rule Min_eqI [OF fin(2)])
    fix v assume "v \<in> snd ` Op"
    then obtain x where "(x, v) \<in> Op" by force
    from rows [OF this] show "t \<le> v" by simp
  next
    from xt show "t \<in> snd ` Op" by force
  qed
  moreover have "Max (fst ` Op) = r - 1"
  proof (rule Max_eqI [OF fin(1)])
    fix v assume "v \<in> fst ` Op"
    then obtain y where "(v, y) \<in> Op" by force
    from cols_r [OF this] show "v \<le> r - 1" by simp
  next
    from yr show "r - 1 \<in> fst ` Op" by force
  qed
  moreover have "Max (snd ` Op) = b - 1"
  proof (rule Max_eqI [OF fin(2)])
    fix v assume "v \<in> snd ` Op"
    then obtain x where "(x, v) \<in> Op" by force
    from rows [OF this] show "v \<le> b - 1" by simp
  next
    from xb show "b - 1 \<in> snd ` Op" by force
  qed
  ultimately show ?thesis by (simp add: g)
qed

section \<open>Proofs: rounding, the quadratic solver and the ellipse guard\<close>

lemma pow2_pos: "0 < pow2 e"
  by (simp add: pow2_def)

lemma pow2_powr: "pow2 e = 2 powr (of_int e)"
proof (cases "0 \<le> e")
  case True
  then have "2 powr (of_int e) = (2 :: real) ^ nat e"
    by (simp add: powr_realpow [symmetric])
  with True show ?thesis by (simp add: pow2_def)
next
  case False
  then have "2 powr (of_int e) = 1 / (2 :: real) ^ nat (- e)"
    by (simp add: powr_realpow [symmetric] powr_minus_divide [symmetric])
  with False show ?thesis by (simp add: pow2_def)
qed

lemma pow2_add: "pow2 (d + e) = pow2 d * pow2 e"
  by (simp add: pow2_powr powr_add)

lemma pow2_mono: "d \<le> e \<Longrightarrow> pow2 d \<le> pow2 e"
  by (simp add: pow2_powr)

lemma pow2_int: "0 \<le> e \<Longrightarrow> pow2 e = of_int (2 ^ nat e)"
  by (simp add: pow2_def)

lemma nearestEven_int: "nearestEven (of_int m) = m"
  by (simp add: nearestEven_def)

lemma exponent_bounds:
  assumes "r \<noteq> 0"
  shows "pow2 \<lfloor>log 2 \<bar>r\<bar>\<rfloor> \<le> \<bar>r\<bar>" and "\<bar>r\<bar> < pow2 (\<lfloor>log 2 \<bar>r\<bar>\<rfloor> + 1)"
proof -
  from assms have p: "0 < \<bar>r\<bar>" by simp
  have "\<lfloor>log 2 \<bar>r\<bar>\<rfloor> = \<lfloor>log 2 \<bar>r\<bar>\<rfloor>" ..
  then have "2 powr (of_int \<lfloor>log 2 \<bar>r\<bar>\<rfloor>) \<le> \<bar>r\<bar> \<and> \<bar>r\<bar> < 2 powr (of_int (\<lfloor>log 2 \<bar>r\<bar>\<rfloor> + 1))"
    using floor_log_eq_powr_iff [of "\<bar>r\<bar>" 2 "\<lfloor>log 2 \<bar>r\<bar>\<rfloor>"] p by simp
  then show "pow2 \<lfloor>log 2 \<bar>r\<bar>\<rfloor> \<le> \<bar>r\<bar>" and "\<bar>r\<bar> < pow2 (\<lfloor>log 2 \<bar>r\<bar>\<rfloor> + 1)"
    by (simp_all add: pow2_powr)
qed

text \<open>A dyadic number with at most 53 significant bits is rounded to itself, or to an infinity.\<close>

lemma roundTiesToEven_dyadic:
  assumes r: "r = of_int m * pow2 k" and m: "\<bar>m\<bar> < 2 ^ 53" and k: "- 1074 \<le> k"
  shows "roundTiesToEven r = (if pow2 1024 \<le> \<bar>r\<bar> then infinity (0 < r) else Num r)"
proof (cases "r = 0")
  case True
  then show ?thesis
    using pow2_pos [of 1024] by (simp add: roundTiesToEven_def)
next
  case False
  define e where "e = \<lfloor>log 2 \<bar>r\<bar>\<rfloor>"
  have lo: "pow2 e \<le> \<bar>r\<bar>" and hi: "\<bar>r\<bar> < pow2 (e + 1)"
    unfolding e_def using exponent_bounds [OF False] by blast+
  have "\<bar>r\<bar> = of_int \<bar>m\<bar> * pow2 k"
    using pow2_pos [of k] by (simp add: r abs_mult)
  also have "\<dots> < of_int (2 ^ 53) * pow2 k"
    using m pow2_pos [of k] by (intro mult_strict_right_mono) (simp_all del: of_int_power)
  also have "\<dots> = pow2 (53 + k)"
  proof -
    have "pow2 53 = of_int (2 ^ 53)"
      by (simp add: pow2_def)
    then show ?thesis
      by (simp only: pow2_add)
  qed
  finally have "pow2 e < pow2 (53 + k)"
    using lo by simp
  then have ek: "e \<le> 52 + k"
    using pow2_mono [of "53 + k" e] by (cases "e \<le> 52 + k") simp_all
  define d where "d = max e (- 1022)"
  have dk: "0 \<le> k - (d - 52)"
    using ek k by (simp add: d_def)
  have ex: "exponent r = d"
    by (simp add: exponent_def d_def e_def)
  have "pow2 k = pow2 (k - (d - 52)) * pow2 (d - 52)"
    using pow2_add [of "k - (d - 52)" "d - 52"] by simp
  then have "r / pow2 (d - 52) = of_int m * pow2 (k - (d - 52))"
    using pow2_pos [of "d - 52"] by (simp add: r)
  also have "\<dots> = of_int (m * 2 ^ nat (k - (d - 52)))"
    using dk by (simp add: pow2_def)
  finally have q: "r / pow2 (d - 52) = of_int (m * 2 ^ nat (k - (d - 52)))" .
  have x: "of_int (nearestEven (r / pow2 (d - 52))) * pow2 (d - 52) = r"
  proof -
    have "of_int (nearestEven (r / pow2 (d - 52))) = r / pow2 (d - 52)"
      unfolding q nearestEven_int ..
    then show ?thesis
      using pow2_pos [of "d - 52"] by simp
  qed
  from False show ?thesis
    by (simp add: roundTiesToEven_def ex Let_def x)
qed

lemma roundTiesToEven_cases:
  "(\<exists>x. roundTiesToEven r = Num x) \<or> roundTiesToEven r = PosInf \<or> roundTiesToEven r = NegInf"
  by (simp add: roundTiesToEven_def Let_def infinity_def)



lemma representable_int: "\<bar>m\<bar> < 2 ^ 53 \<Longrightarrow> representable (of_int m)"
proof -
  assume m: "\<bar>m\<bar> < 2 ^ 53"
  then have "\<bar>real_of_int m\<bar> < of_int (2 ^ 53)"
    unfolding of_int_abs [symmetric] of_int_less_iff .
  also have "\<dots> \<le> pow2 1024"
    by (simp add: pow2_def)
  finally have "\<not> pow2 1024 \<le> \<bar>real_of_int m\<bar>"
    by simp
  with roundTiesToEven_dyadic [of "of_int m" m 0] m show ?thesis
    by (simp add: representable_def pow2_def)
qed

lemma representable_small: "representable 1" "representable 2" "representable 4"
  "representable 8" "representable 9"
  using representable_int [of 1] representable_int [of 2] representable_int [of 4]
    representable_int [of 8] representable_int [of 9]
  by simp_all

lemma round_overflow: "roundTiesToEven (2 ^ 600 * 2 ^ 600) = PosInf"
proof -
  have e: "(2 :: real) ^ 600 * 2 ^ 600 = of_int 1 * pow2 1200"
    by (simp add: pow2_def power_add [symmetric])
  have "pow2 1024 \<le> pow2 1200"
    by (rule pow2_mono) simp
  with roundTiesToEven_dyadic [OF e] e pow2_pos [of 1200] show ?thesis
    by (simp add: infinity_def)
qed

lemma representable_big: "representable (2 ^ 600)"
proof -
  have e: "(2 :: real) ^ 600 = of_int 1 * pow2 600"
    by (simp add: pow2_def)
  have "pow2 600 < pow2 1024"
    by (simp add: pow2_def)
  with roundTiesToEven_dyadic [OF e] e show ?thesis
    by (simp add: representable_def)
qed

lemma quadratic_roots:
  fixes a b c x :: real
  assumes a: "a \<noteq> 0" and d: "0 \<le> b * b - 4 * a * c"
  shows "a * x\<^sup>2 + b * x + c = 0 \<longleftrightarrow>
    x = (- b + sqrt (b * b - 4 * a * c)) / 2 / a \<or> x = (- b - sqrt (b * b - 4 * a * c)) / 2 / a"
proof -
  define s where "s = sqrt (b * b - 4 * a * c)"
  have s2: "s * s = b * b - 4 * a * c"
    using d by (simp add: s_def)
  have "(2 * a * x + b - s) * (2 * a * x + b + s) = (2 * a * x + b) * (2 * a * x + b) - s * s"
    by (simp add: algebra_simps)
  also have "\<dots> = 4 * a * (a * x\<^sup>2 + b * x + c)"
    unfolding s2 by (simp add: algebra_simps power2_eq_square)
  finally have e: "(2 * a * x + b - s) * (2 * a * x + b + s) = 4 * a * (a * x\<^sup>2 + b * x + c)" .
  have "a * x\<^sup>2 + b * x + c = 0 \<longleftrightarrow> (2 * a * x + b - s) * (2 * a * x + b + s) = 0"
    unfolding e using a by simp
  also have "\<dots> \<longleftrightarrow> 2 * a * x + b - s = 0 \<or> 2 * a * x + b + s = 0"
    by simp
  also have "\<dots> \<longleftrightarrow> x = (- b + s) / 2 / a \<or> x = (- b - s) / 2 / a"
    using a by (auto simp add: field_simps)
  finally show ?thesis
    unfolding s_def .
qed

lemma solveQuadratic_exact:
  fixes a b c s :: real
  defines "s \<equiv> sqrt (b * b - 4 * a * c)"
  assumes a: "a \<noteq> 0" and d: "0 \<le> b * b - 4 * a * c"
    and r1: "roundTiesToEven (b * b) = Num (b * b)"
    and r2: "roundTiesToEven (4 * a) = Num (4 * a)"
    and r3: "roundTiesToEven (4 * a * c) = Num (4 * a * c)"
    and r4: "roundTiesToEven (b * b - 4 * a * c) = Num (b * b - 4 * a * c)"
    and r5: "roundTiesToEven s = Num s"
    and p1: "roundTiesToEven (- b + s) = Num (- b + s)"
    and p2: "roundTiesToEven ((- b + s) / 2) = Num ((- b + s) / 2)"
    and p3: "roundTiesToEven ((- b + s) / 2 / a) = Num ((- b + s) / 2 / a)"
    and m1: "roundTiesToEven (- b - s) = Num (- b - s)"
    and m2: "roundTiesToEven ((- b - s) / 2) = Num ((- b - s) / 2)"
    and m3: "roundTiesToEven ((- b - s) / 2 / a) = Num ((- b - s) / 2 / a)"
  shows "solveQuadratic (Num a) (Num b) (Num c) =
    (if (- b - s) / 2 / a < (- b + s) / 2 / a
     then (Num ((- b + s) / 2 / a), Num ((- b - s) / 2 / a))
     else (Num ((- b - s) / 2 / a), Num ((- b + s) / 2 / a)))"
proof -
  have bb: "Num b * Num b = Num (b * b)"
    by (simp add: r1)
  have ac: "Num 4 * Num a * Num c = Num (4 * a * c)"
    by (simp add: r2 r3)
  have dd: "(Num b * Num b) - (Num 4 * Num a * Num c) = Num (b * b - 4 * a * c)"
    unfolding bb ac using r4 by (simp add: minus_number_def)
  have sq: "Math_sqrt ((Num b * Num b) - (Num 4 * Num a * Num c)) = Num s"
    unfolding dd using d r5 by (simp add: s_def)
  have s1: "(- Num b + Num s) / Num 2 / Num a = Num ((- b + s) / 2 / a)"
  proof -
    have "- Num b + Num s = Num (- b + s)"
      using p1 by simp
    moreover have "Num (- b + s) / Num 2 = Num ((- b + s) / 2)"
      using p2 by simp
    moreover have "Num ((- b + s) / 2) / Num a = Num ((- b + s) / 2 / a)"
      using p3 a by simp
    ultimately show ?thesis by simp
  qed
  have s2: "(- Num b - Num s) / Num 2 / Num a = Num ((- b - s) / 2 / a)"
  proof -
    have "- Num b - Num s = Num (- b - s)"
      using m1 by (simp add: minus_number_def)
    moreover have "Num (- b - s) / Num 2 = Num ((- b - s) / 2)"
      using m2 by simp
    moreover have "Num ((- b - s) / 2) / Num a = Num ((- b - s) / 2 / a)"
      using m3 a by simp
    ultimately show ?thesis by simp
  qed
  show ?thesis
    unfolding solveQuadratic_def sq s1 s2 Let_def by simp
qed

lemma round_half: "roundTiesToEven (1 / 2) = Num (1 / 2)"
  using roundTiesToEven_dyadic [of "1 / 2" 1 "- 1"] by (simp add: pow2_def)

lemma round_minus_half: "roundTiesToEven (- (1 / 2)) = Num (- (1 / 2))"
  using roundTiesToEven_dyadic [of "- (1 / 2)" "- 1" "- 1"] by (simp add: pow2_def)


lemma trunc_small:
  assumes "\<bar>r\<bar> < 2"
  shows "trunc \<bar>r\<bar> = 0 \<or> trunc \<bar>r\<bar> = 1"
proof -
  have f: "0 \<le> \<lfloor>\<bar>r\<bar>\<rfloor>" by simp
  have g: "\<lfloor>\<bar>r\<bar>\<rfloor> < 2" using assms by (simp add: floor_less_iff)
  have t: "trunc \<bar>r\<bar> = \<lfloor>\<bar>r\<bar>\<rfloor>" by (simp add: trunc_def)
  from f g show ?thesis unfolding t by linarith
qed

lemma inset_small:
  assumes "Math_abs v < Num 2 \<or> v = NaN"
  shows "Num (of_int (toInt32 (Math_abs v))) - Num (1 / 2) < Num 1"
proof (cases v)
  case (Num r)
  with assms have "\<bar>r\<bar> < 2" by simp
  from trunc_small [OF this] Num show ?thesis
    by (auto simp add: minus_number_def wrap32_def round_half round_minus_half)
qed (use assms in \<open>simp_all add: minus_number_def round_minus_half\<close>)

lemma guard_false:
  assumes "strictEq (options_shearSlope options) PosInf
    \<or> Num (of_int (toInt32 (Math_abs (options_radiusX options)))) - Num (1 / 2) < Num 1
    \<or> Num (of_int (toInt32 (Math_abs (options_radiusY options)))) - Num (1 / 2) < Num 1"
  shows "drawShearedEllipse options context = Some (Inr (False, context))"
  using assms unfolding drawShearedEllipse_def Let_def by (simp only: if_True)

lemma inset_trunc:
  assumes "real_of_int (trunc \<bar>r\<bar>) - 1 / 2 < 1"
  shows "Num (of_int (toInt32 (Math_abs (Num r)))) - Num (1 / 2) < Num 1"
proof -
  from assms have "trunc \<bar>r\<bar> < 2" by linarith
  then have "\<lfloor>\<bar>r\<bar>\<rfloor> < 2" by (simp add: trunc_def)
  then have "\<bar>r\<bar> < 2" by (simp add: floor_less_iff)
  then have "Math_abs (Num r) < Num 2 \<or> Num r = NaN" by simp
  from inset_small [OF this] show ?thesis .
qed

text \<open>
  The guard of the two ellipse functions: \<^verbatim>\<open>drawEllipse\<close> returns \<^verbatim>\<open>false\<close> without
  any \<^verbatim>\<open>fillRect\<close> call when the matrix is not invertible, and \<^verbatim>\<open>drawShearedEllipse_\<close>
  does so when the shear slope is \<^verbatim>\<open>+Infinity\<close> or when the truncated absolute value of
  a radius, less one half, is below 1.
\<close>

lemma drawEllipse_guard:
  "(\<not> isInvertible matrix \<longrightarrow>
      drawEllipse isInvertible invert positionX positionY radiusX radiusY matrix isFilled context =
        Some (Inr (False, context))) \<and>
   (options_shearSlope options = PosInf
      \<or> (\<exists>r. options_radiusX options = Num r \<and> real_of_int (trunc \<bar>r\<bar>) - 1 / 2 < 1)
      \<or> (\<exists>r. options_radiusY options = Num r \<and> real_of_int (trunc \<bar>r\<bar>) - 1 / 2 < 1) \<longrightarrow>
      drawShearedEllipse options context = Some (Inr (False, context)))"
proof (intro conjI impI)
  assume "\<not> isInvertible matrix"
  then show "drawEllipse isInvertible invert positionX positionY radiusX radiusY matrix isFilled
      context = Some (Inr (False, context))"
    by (simp add: drawEllipse_def)
next
  assume "options_shearSlope options = PosInf
      \<or> (\<exists>r. options_radiusX options = Num r \<and> real_of_int (trunc \<bar>r\<bar>) - 1 / 2 < 1)
      \<or> (\<exists>r. options_radiusY options = Num r \<and> real_of_int (trunc \<bar>r\<bar>) - 1 / 2 < 1)"
  then consider "options_shearSlope options = PosInf"
    | r where "options_radiusX options = Num r" "real_of_int (trunc \<bar>r\<bar>) - 1 / 2 < 1"
    | r where "options_radiusY options = Num r" "real_of_int (trunc \<bar>r\<bar>) - 1 / 2 < 1"
    by blast
  then show "drawShearedEllipse options context = Some (Inr (False, context))"
  proof cases
    case 1
    then show ?thesis by (intro guard_false) (simp add: strictEq_def)
  next
    case 2
    from inset_trunc [OF 2(2)] 2(1) show ?thesis by (intro guard_false) simp
  next
    case 3
    from inset_trunc [OF 3(2)] 3(1) show ?thesis by (intro guard_false) simp
  qed
qed












section \<open>Fills that touch every pixel or none\<close>

lemma getColor_pixel:
  assumes "wf_image (canvas context)" "inb (canvas context) (x, y)"
  shows "getColor x y context = pixel (canvas context) (x, y)"
proof -
  have o: "((y * int (width (canvas context))) + x) * 4 = int (offset (canvas context) (x, y))"
    using offset_int [OF assms(2)] by simp
  have b: "offset (canvas context) (x, y) + 3 < length (data (canvas context))"
    by (rule offset_bound [OF assms])
  have i: "0 \<le> x \<and> x < int (width (canvas context)) \<and> 0 \<le> y \<and> y < int (height (canvas context))"
    using assms(2) by (simp add: inb_def)
  have "int (offset (canvas context) (x, y)) + 3 < int (length (data (canvas context)))"
    using b by linarith
  then show ?thesis
    unfolding getColor_def getImageData_pixel_def Let_def o pixel_def
    using i by (simp add: nat_add_distrib)
qed

lemma seed_toInt32:
  assumes "wf_canvas context" "inb (canvas context) (trunc rx, trunc ry)"
  shows "toInt32 (Num rx) = trunc rx" and "toInt32 (Num ry) = trunc ry"
proof -
  let ?c = "canvas context"
  from assms(2) have pos: "0 < width ?c" "0 < height ?c"
    and b: "0 \<le> trunc rx" "trunc rx < int (width ?c)" "0 \<le> trunc ry" "trunc ry < int (height ?c)"
    by (auto simp: inb_def)
  from assms(1) have "length (data ?c) = 4 * width ?c * height ?c" "length (data ?c) < 2147483648"
    unfolding wf_canvas_def wf_image_def by blast+
  then have len: "4 * (width ?c * height ?c) < 2147483648" by simp
  have "width ?c \<le> width ?c * height ?c" "height ?c \<le> width ?c * height ?c"
    using pos by simp_all
  with len have "width ?c < 2147483648" "height ?c < 2147483648" by linarith+
  with b have "int32 (trunc rx)" "int32 (trunc ry)" by (simp_all add: int32_def)
  then show "toInt32 (Num rx) = trunc rx" and "toInt32 (Num ry) = trunc ry"
    by (simp_all add: wrap32_int32)
qed

text \<open>
  Claim C7: when the colour sampled at the seed (after \<^verbatim>\<open>~~\<close>) is the resolved target
  colour, in all four channels, \<^verbatim>\<open>floodFill\<close> and \<^verbatim>\<open>floodFillAll\<close> return false and
  the context is the one they were given.
\<close>

theorem fill_same_color_noop:
  assumes "getColor (toInt32 x) (toInt32 y) context = fillStyleToColor color"
  shows "floodFill fillStyleToColor x y color context = Some (False, context) \<and>
         floodFillAll fillStyleToColor x y color context = (False, context)"
  using assms by (simp add: floodFill_def floodFillAll_def Let_def)

theorem fill_same_color_noop_witness:
  "getColor (toInt32 (Num (3 / 2))) (toInt32 (Num 0))
     \<lparr>canvas = \<lparr>width = 2, height = 1, data = [9, 9, 9, 255, 1, 2, 3, 255]\<rparr>\<rparr> = (\<lambda>s. (1, 2, 3, 255)) ''#010203'' \<and>
   floodFill (\<lambda>s. (1, 2, 3, 255)) (Num (3 / 2)) (Num 0) ''#010203''
     \<lparr>canvas = \<lparr>width = 2, height = 1, data = [9, 9, 9, 255, 1, 2, 3, 255]\<rparr>\<rparr> =
     Some (False, \<lparr>canvas = \<lparr>width = 2, height = 1, data = [9, 9, 9, 255, 1, 2, 3, 255]\<rparr>\<rparr>) \<and>
   floodFillAll (\<lambda>s. (1, 2, 3, 255)) (Num (3 / 2)) (Num 0) ''#010203''
     \<lparr>canvas = \<lparr>width = 2, height = 1, data = [9, 9, 9, 255, 1, 2, 3, 255]\<rparr>\<rparr> =
     (False, \<lparr>canvas = \<lparr>width = 2, height = 1, data = [9, 9, 9, 255, 1, 2, 3, 255]\<rparr>\<rparr>)"
proof -
  have h: "getColor (toInt32 (Num (3 / 2))) (toInt32 (Num 0))
     \<lparr>canvas = \<lparr>width = 2, height = 1, data = [9, 9, 9, 255, 1, 2, 3, 255]\<rparr>\<rparr> = (\<lambda>s. (1, 2, 3, 255)) ''#010203''"
    by (simp add: getColor_def getImageData_pixel_def Let_def trunc_def wrap32_def)
  from h fill_same_color_noop [OF h] show ?thesis by blast
qed

text \<open>
  Claim C2: for a seed that truncates to a pixel of the canvas and a target colour other
  than the colour sampled there, \<^verbatim>\<open>floodFillAll\<close> returns true; every pixel of the
  canvas whose four bytes are the sampled colour gets the target colour, wherever it
  lies, and every other pixel keeps its four bytes.
\<close>

theorem floodFillAll_recolors:
  assumes wf: "wf_canvas context"
    and seed: "x = Num rx" "y = Num ry" "inb (canvas context) (trunc rx, trunc ry)"
    and ne: "fillStyleToColor color \<noteq> pixel (canvas context) (trunc rx, trunc ry)"
  shows "\<exists>context'. floodFillAll fillStyleToColor x y color context = (True, context') \<and>
     width (canvas context') = width (canvas context) \<and>
     height (canvas context') = height (canvas context) \<and>
     wf_image (canvas context') \<and>
     (\<forall>p. inb (canvas context) p \<longrightarrow>
        pixel (canvas context') p =
          (if pixel (canvas context) p = pixel (canvas context) (trunc rx, trunc ry)
           then fillStyleToColor color else pixel (canvas context) p))"
proof -
  let ?c = "canvas context"
  define old where "old = pixel ?c (trunc rx, trunc ry)"
  define new where "new = fillStyleToColor color"
  define res where "res = fold (\<lambda>i imageData.
                  fold (\<lambda>j imageData.
                      if matchesColor (int i) (int j) imageData old
                      then colorPixel (int i) (int j) imageData new
                      else imageData)
                    [0..<height imageData] imageData) [0..<width ?c] ?c"
  have wfi: "wf_image ?c" using wf by (simp add: wf_canvas_def)
  have t: "toInt32 x = trunc rx" "toInt32 y = trunc ry"
    using seed_toInt32 [OF wf seed(3)] seed(1,2) by simp_all
  have gc: "getColor (toInt32 x) (toInt32 y) context = old"
    unfolding t old_def by (rule getColor_pixel [OF wfi seed(3)])
  have run: "floodFillAll fillStyleToColor x y color context = (True, putImageData context res)"
    using ne gc unfolding floodFillAll_def Let_def res_def new_def getImageData_canvas_def
    by (simp add: old_def)
  have r: "wf_image res \<and> width res = width ?c \<and> height res = height ?c \<and>
    (\<forall>q. inb ?c q \<longrightarrow> pixel res q =
       (if nat (fst q) \<in> set [0..<width ?c] \<and> pixel ?c q = old then new else pixel ?c q))"
    unfolding res_def by (rule recolor_all [OF wfi]) auto
  have px: "pixel res q = (if pixel ?c q = old then new else pixel ?c q)" if "inb ?c q" for q
  proof -
    from that have m: "nat (fst q) \<in> set [0..<width ?c]" by (simp add: inb_def nat_less_iff)
    from r that have "pixel res q =
       (if nat (fst q) \<in> set [0..<width ?c] \<and> pixel ?c q = old then new else pixel ?c q)"
      by blast
    with m show ?thesis by simp
  qed
  from r have d: "wf_image res" "width res = width ?c" "height res = height ?c" by blast+
  show ?thesis
  proof (intro exI [of _ "putImageData context res"] conjI allI impI)
    show "floodFillAll fillStyleToColor x y color context = (True, putImageData context res)"
      by (rule run)
    show "pixel (canvas (putImageData context res)) p =
          (if pixel ?c p = pixel ?c (trunc rx, trunc ry) then fillStyleToColor color else pixel ?c p)"
      if "inb ?c p" for p
      using px [OF that] by (simp add: putImageData_def old_def new_def)
  qed (simp_all add: putImageData_def d)
qed

theorem floodFillAll_recolors_witness:
  "wf_canvas \<lparr>canvas = \<lparr>width = 10, height = 10, data = replicate 400 0\<rparr>\<rparr> \<and>
   inb \<lparr>width = 10, height = 10, data = replicate 400 0\<rparr> (trunc 5, trunc 5) \<and>
   parse_red ''#ff0000'' \<noteq> pixel \<lparr>width = 10, height = 10, data = replicate 400 0\<rparr> (trunc 5, trunc 5) \<and>
   (\<exists>context'.
      floodFillAll parse_red (Num 5) (Num 5) ''#ff0000''
        \<lparr>canvas = \<lparr>width = 10, height = 10, data = replicate 400 0\<rparr>\<rparr> = (True, context') \<and>
      width (canvas context') = 10 \<and> height (canvas context') = 10 \<and>
      (\<forall>p. inb \<lparr>width = 10, height = 10, data = replicate 400 0\<rparr> p \<longrightarrow>
           pixel (canvas context') p = (255, 0, 0, 255)))"
proof -
  let ?c = "\<lparr>width = 10, height = 10, data = replicate 400 (0 :: byte)\<rparr>"
  have wf: "wf_canvas \<lparr>canvas = ?c\<rparr>" by (simp add: wf_canvas_def wf_image_def)
  have seed: "inb (canvas \<lparr>canvas = ?c\<rparr>) (trunc 5, trunc 5)" by (simp add: inb_def trunc_def)
  have px: "pixel ?c p = (0, 0, 0, 0)" if "inb ?c p" for p
  proof -
    have "offset ?c p + 3 < length (data ?c)"
      by (rule offset_bound [OF _ that]) (simp add: wf_image_def)
    then show ?thesis by (simp add: pixel_def)
  qed
  have ne: "parse_red ''#ff0000'' \<noteq> pixel (canvas \<lparr>canvas = ?c\<rparr>) (trunc 5, trunc 5)"
    using px [of "(trunc 5, trunc 5)"] seed by (simp add: parse_red_def)
  from floodFillAll_recolors [where x = "Num 5" and y = "Num 5" and rx = 5 and ry = 5
      and fillStyleToColor = parse_red and color = "''#ff0000''", OF wf refl refl seed ne]
  obtain context' where
    r: "floodFillAll parse_red (Num 5) (Num 5) ''#ff0000'' \<lparr>canvas = ?c\<rparr> = (True, context')"
      "width (canvas context') = 10" "height (canvas context') = 10"
    and p: "\<And>p. inb ?c p \<Longrightarrow> pixel (canvas context') p =
        (if pixel ?c p = pixel ?c (trunc 5, trunc 5) then parse_red ''#ff0000'' else pixel ?c p)"
    by auto
  have "pixel (canvas context') p = (255, 0, 0, 255)" if "inb ?c p" for p
    using p [OF that] px [OF that] px [of "(trunc 5, trunc 5)"] seed
    by (simp add: parse_red_def)
  with r have "\<exists>context'.
      floodFillAll parse_red (Num 5) (Num 5) ''#ff0000'' \<lparr>canvas = ?c\<rparr> = (True, context') \<and>
      width (canvas context') = 10 \<and> height (canvas context') = 10 \<and>
      (\<forall>p. inb ?c p \<longrightarrow> pixel (canvas context') p = (255, 0, 0, 255))"
    by blast
  with wf seed ne show ?thesis by simp
qed

section \<open>The scoped fill\<close>

lemma floodFill_run:
  assumes wf: "wf_canvas context"
    and seed: "x = Num rx" "y = Num ry" "inb (canvas context) (trunc rx, trunc ry)"
    and ne: "fillStyleToColor color \<noteq> pixel (canvas context) (trunc rx, trunc ry)"
  shows "toInt32 x = trunc rx" "toInt32 y = trunc ry"
    "getColor (toInt32 x) (toInt32 y) context = pixel (canvas context) (trunc rx, trunc ry)"
    "floodFill fillStyleToColor x y color context =
       (case fill_loop (fillStyleToColor color) (pixel (canvas context) (trunc rx, trunc ry))
               (canvas context) [(trunc rx, trunc ry)] of
          None \<Rightarrow> None
        | Some imageData' \<Rightarrow> Some (True, putImageData context imageData'))"
proof -
  have wfi: "wf_image (canvas context)" using wf by (simp add: wf_canvas_def)
  show t: "toInt32 x = trunc rx" "toInt32 y = trunc ry"
    using seed_toInt32 [OF wf seed(3)] seed(1,2) by simp_all
  show gc: "getColor (toInt32 x) (toInt32 y) context = pixel (canvas context) (trunc rx, trunc ry)"
    unfolding t by (rule getColor_pixel [OF wfi seed(3)])
  show "floodFill fillStyleToColor x y color context =
       (case fill_loop (fillStyleToColor color) (pixel (canvas context) (trunc rx, trunc ry))
               (canvas context) [(trunc rx, trunc ry)] of
          None \<Rightarrow> None
        | Some imageData' \<Rightarrow> Some (True, putImageData context imageData'))"
    using ne by (simp add: floodFill_def Let_def getImageData_canvas_def t
        getColor_pixel [OF wfi seed(3)] eq_commute [of _ "fillStyleToColor color"])
qed

text \<open>
  Claim C1: for a seed that truncates to a pixel of the canvas and a target colour other
  than the colour sampled there, \<^verbatim>\<open>floodFill\<close> returns true; exactly the pixels of the
  4-connected component of the seed, under equality of all four channels with the
  seed's colour, get the target colour, and every other pixel keeps its four bytes.
\<close>

theorem floodFill_component:
  assumes wf: "wf_canvas context"
    and seed: "x = Num rx" "y = Num ry" "inb (canvas context) (trunc rx, trunc ry)"
    and ne: "fillStyleToColor color \<noteq> pixel (canvas context) (trunc rx, trunc ry)"
  shows "\<exists>context'. floodFill fillStyleToColor x y color context = Some (True, context') \<and>
     width (canvas context') = width (canvas context) \<and>
     height (canvas context') = height (canvas context) \<and>
     wf_image (canvas context') \<and>
     (\<forall>p. inb (canvas context) p \<longrightarrow>
        pixel (canvas context') p =
          (if p \<in> region (canvas context) (trunc rx, trunc ry)
           then fillStyleToColor color else pixel (canvas context) p))"
proof -
  have wfi: "wf_image (canvas context)" using wf by (simp add: wf_canvas_def)
  from fill_loop_correct [OF wfi seed(3) ne]
  obtain img' where l: "fill_loop (fillStyleToColor color) (pixel (canvas context) (trunc rx, trunc ry))
      (canvas context) [(trunc rx, trunc ry)] = Some img'"
    and r: "wf_image img'" "width img' = width (canvas context)" "height img' = height (canvas context)"
      "\<forall>p. inb (canvas context) p \<longrightarrow> pixel img' p =
        (if p \<in> region (canvas context) (trunc rx, trunc ry)
         then fillStyleToColor color else pixel (canvas context) p)"
    by blast
  have "floodFill fillStyleToColor x y color context = Some (True, putImageData context img')"
    unfolding floodFill_run(4) [where fillStyleToColor = fillStyleToColor and color = color, OF wf seed ne] l by simp
  with r show ?thesis
    by (intro exI [of _ "putImageData context img'"]) (simp add: putImageData_def)
qed

text \<open>
  Claim C9: under the same conditions the stack loop of \<^verbatim>\<open>floodFill\<close> leaves after
  finitely many pops, so the call returns.
\<close>

theorem floodFill_terminates:
  assumes wf: "wf_canvas context"
    and seed: "x = Num rx" "y = Num ry" "inb (canvas context) (trunc rx, trunc ry)"
    and ne: "fillStyleToColor color \<noteq> pixel (canvas context) (trunc rx, trunc ry)"
  shows "fill_loop (fillStyleToColor color) (getColor (toInt32 x) (toInt32 y) context)
           (getImageData_canvas context) [(toInt32 x, toInt32 y)] \<noteq> None \<and>
         floodFill fillStyleToColor x y color context \<noteq> None"
proof -
  have wfi: "wf_image (canvas context)" using wf by (simp add: wf_canvas_def)
  from fill_loop_correct [OF wfi seed(3) ne]
  obtain img' where l: "fill_loop (fillStyleToColor color) (pixel (canvas context) (trunc rx, trunc ry))
      (canvas context) [(trunc rx, trunc ry)] = Some img'" by blast
  then show ?thesis
    by (simp add: floodFill_run(4) [where fillStyleToColor = fillStyleToColor and color = color, OF wf seed ne]
        floodFill_run(1,2) [where fillStyleToColor = fillStyleToColor and color = color, OF wf seed ne]
        getColor_pixel [OF wfi seed(3)] getImageData_canvas_def)
qed

lemma ring_image_wf: "wf_canvas \<lparr>canvas = ring_image\<rparr>"
  by (simp add: wf_canvas_def wf_image_def ring_image_def)

lemma ring_image_seed: "inb (canvas \<lparr>canvas = ring_image\<rparr>) (trunc (5 / 2), trunc (12 / 5))"
  by (simp add: inb_def ring_image_def trunc_def)

lemma ring_image_pixels:
  "pixel ring_image (2, 2) = (0, 0, 0, 0)" "pixel ring_image (0, 0) = (0, 0, 0, 0)"
  "pixel ring_image (1, 2) = (9, 9, 9, 255)" "pixel ring_image (3, 2) = (9, 9, 9, 255)"
  "pixel ring_image (2, 1) = (9, 9, 9, 255)" "pixel ring_image (2, 3) = (9, 9, 9, 255)"
  by (simp_all add: pixel_def offset_def ring_image_def)

lemma ring_image_ne:
  "parse_red ''#ff0000'' \<noteq> pixel (canvas \<lparr>canvas = ring_image\<rparr>) (trunc (5 / 2), trunc (12 / 5))"
  by (simp add: parse_red_def trunc_def ring_image_pixels)

lemma ring_image_region: "p \<in> region ring_image (2, 2) \<Longrightarrow> p = (2, 2)"
proof (induction rule: region.induct)
  case region_seed
  show ?case by simp
next
  case (region_step p q)
  then have "adjacent4 (2, 2) q" by simp
  then have "q = (2, 1) \<or> q = (2, 3) \<or> q = (1, 2) \<or> q = (3, 2)"
    by (cases q) (auto simp: adjacent4_def)
  with region_step.hyps(4) show ?case by (auto simp: ring_image_pixels)
qed

theorem floodFill_component_witness:
  "wf_canvas \<lparr>canvas = ring_image\<rparr> \<and>
   inb (canvas \<lparr>canvas = ring_image\<rparr>) (trunc (5 / 2), trunc (12 / 5)) \<and>
   parse_red ''#ff0000'' \<noteq> pixel (canvas \<lparr>canvas = ring_image\<rparr>) (trunc (5 / 2), trunc (12 / 5)) \<and>
   (\<exists>context'. floodFill parse_red (Num (5 / 2)) (Num (12 / 5)) ''#ff0000'' \<lparr>canvas = ring_image\<rparr>
        = Some (True, context') \<and>
      pixel (canvas context') (2, 2) = (255, 0, 0, 255) \<and>
      pixel (canvas context') (1, 2) = (9, 9, 9, 255) \<and>
      pixel (canvas context') (0, 0) = (0, 0, 0, 0))"
proof -
  from floodFill_component [where fillStyleToColor = parse_red and color = "''#ff0000''",
      OF ring_image_wf refl refl ring_image_seed ring_image_ne]
  obtain context' where
    r: "floodFill parse_red (Num (5 / 2)) (Num (12 / 5)) ''#ff0000'' \<lparr>canvas = ring_image\<rparr>
        = Some (True, context')"
    and p: "\<And>p. inb ring_image p \<Longrightarrow> pixel (canvas context') p =
          (if p \<in> region ring_image (trunc (5 / 2), trunc (12 / 5))
           then parse_red ''#ff0000'' else pixel ring_image p)"
    by auto
  have t: "(trunc (5 / 2), trunc (12 / 5)) = (2, 2)" by (simp add: trunc_def)
  have i: "inb ring_image (2, 2)" "inb ring_image (1, 2)" "inb ring_image (0, 0)"
    by (simp_all add: inb_def ring_image_def)
  have m: "(2, 2) \<in> region ring_image (2, 2)" by (rule region_seed [OF i(1)])
  have n: "(1, 2) \<notin> region ring_image (2, 2)" "(0, 0) \<notin> region ring_image (2, 2)"
    using ring_image_region by fastforce+
  have "pixel (canvas context') (2, 2) = (255, 0, 0, 255)"
    "pixel (canvas context') (1, 2) = (9, 9, 9, 255)"
    "pixel (canvas context') (0, 0) = (0, 0, 0, 0)"
    using p [OF i(1)] p [OF i(2)] p [OF i(3)] m n
    by (simp_all add: t parse_red_def ring_image_pixels)
  with r ring_image_wf ring_image_seed ring_image_ne show ?thesis by blast
qed

theorem floodFill_terminates_witness:
  "wf_canvas \<lparr>canvas = ring_image\<rparr> \<and>
   inb (canvas \<lparr>canvas = ring_image\<rparr>) (trunc (5 / 2), trunc (12 / 5)) \<and>
   parse_red ''#ff0000'' \<noteq> pixel (canvas \<lparr>canvas = ring_image\<rparr>) (trunc (5 / 2), trunc (12 / 5)) \<and>
   fill_loop (parse_red ''#ff0000'')
     (getColor (toInt32 (Num (5 / 2))) (toInt32 (Num (12 / 5))) \<lparr>canvas = ring_image\<rparr>)
     (getImageData_canvas \<lparr>canvas = ring_image\<rparr>)
     [(toInt32 (Num (5 / 2)), toInt32 (Num (12 / 5)))] \<noteq> None \<and>
   floodFill parse_red (Num (5 / 2)) (Num (12 / 5)) ''#ff0000'' \<lparr>canvas = ring_image\<rparr> \<noteq> None"
  using floodFill_terminates [where fillStyleToColor = parse_red and color = "''#ff0000''",
      OF ring_image_wf refl refl ring_image_seed ring_image_ne]
    ring_image_wf ring_image_seed ring_image_ne
  by blast

section \<open>The hit bounds\<close>

text \<open>
  Claim C5: on a well-formed raster with at least one pixel of nonzero alpha,
  \<^verbatim>\<open>getHitBounds\<close> returns the tightest rectangle around those pixels: its left and
  top edges are the least column and row of such a pixel, its right and bottom edges the
  greatest. When every alpha byte is 0 the rectangle has width 0 or height 0.
\<close>

theorem getHitBounds_tight:
  assumes "wf_raster raster"
  shows "(opaque (raster_imageData raster) \<noteq> {} \<longrightarrow>
            rect_x (getHitBounds raster) = Min (fst ` opaque (raster_imageData raster)) \<and>
            rect_y (getHitBounds raster) = Min (snd ` opaque (raster_imageData raster)) \<and>
            rect_x (getHitBounds raster) + rect_width (getHitBounds raster) - 1 =
              Max (fst ` opaque (raster_imageData raster)) \<and>
            rect_y (getHitBounds raster) + rect_height (getHitBounds raster) - 1 =
              Max (snd ` opaque (raster_imageData raster))) \<and>
         (opaque (raster_imageData raster) = {} \<longrightarrow>
            rect_width (getHitBounds raster) = 0 \<or> rect_height (getHitBounds raster) = 0)"
  using getHitBounds_nonempty [OF assms] getHitBounds_empty [OF assms] by blast

theorem getHitBounds_tight_witness:
  "wf_raster dot_raster \<and> opaque (raster_imageData dot_raster) \<noteq> {} \<and>
   getHitBounds dot_raster = \<lparr>rect_x = 3, rect_y = 4, rect_width = 1, rect_height = 1\<rparr> \<and>
   Min (fst ` opaque (raster_imageData dot_raster)) = 3 \<and>
   Min (snd ` opaque (raster_imageData dot_raster)) = 4 \<and>
   Max (fst ` opaque (raster_imageData dot_raster)) = 3 \<and>
   Max (snd ` opaque (raster_imageData dot_raster)) = 4 \<and>
   wf_raster blank_raster \<and> opaque (raster_imageData blank_raster) = {} \<and>
   (rect_width (getHitBounds blank_raster) = 0 \<or> rect_height (getHitBounds blank_raster) = 0)"
proof -
  have wf: "wf_raster dot_raster" by (simp add: wf_raster_def wf_image_def dot_raster_def)
  have "(3, 4) \<in> opaque (raster_imageData dot_raster)"
    by (simp add: opaque_def inb_def dot_raster_def pixel_def offset_def alpha_def)
  then have ne: "opaque (raster_imageData dot_raster) \<noteq> {}" by blast
  have ev: "getHitBounds dot_raster = \<lparr>rect_x = 3, rect_y = 4, rect_width = 1, rect_height = 1\<rparr>"
    by code_simp
  have wfb: "wf_raster blank_raster" by (simp add: wf_raster_def wf_image_def blank_raster_def)
  have "p \<notin> opaque (raster_imageData blank_raster)" for p
  proof
    assume "p \<in> opaque (raster_imageData blank_raster)"
    then have i: "inb (raster_imageData blank_raster) p"
      and a: "alpha (pixel (raster_imageData blank_raster) p) \<noteq> 0" by (simp_all add: opaque_def)
    have "offset (raster_imageData blank_raster) p + 3 < length (data (raster_imageData blank_raster))"
      by (rule offset_bound [OF _ i]) (simp add: wf_image_def blank_raster_def)
    then have "pixel (raster_imageData blank_raster) p = (0, 0, 0, 0)"
      by (simp add: pixel_def blank_raster_def)
    with a show False by (simp add: alpha_def)
  qed
  then have e: "opaque (raster_imageData blank_raster) = {}" by blast
  from getHitBounds_tight [OF wf] ne ev
  have "Min (fst ` opaque (raster_imageData dot_raster)) = 3"
    "Min (snd ` opaque (raster_imageData dot_raster)) = 4"
    "Max (fst ` opaque (raster_imageData dot_raster)) = 3"
    "Max (snd ` opaque (raster_imageData dot_raster)) = 4" by simp_all
  moreover from getHitBounds_tight [OF wfb] e
  have "rect_width (getHitBounds blank_raster) = 0 \<or> rect_height (getHitBounds blank_raster) = 0"
    by blast
  ultimately show ?thesis using wf ne ev wfb e by blast
qed

section \<open>Claims on the quadratic solver and the ellipse rasterizer\<close>

text \<open>
  Claim C8, amended: for coefficients \<open>a\<close>, \<open>b\<close>, \<open>c\<close> with \<open>a\<close> nonzero and a
  non-negative discriminant \<open>b\<^sup>2 - 4ac\<close>, such that every intermediate result of the two
  formulas of \<^verbatim>\<open>solveQuadratic_\<close> is a binary64 value (nothing is rounded and nothing
  overflows), the function returns two finite numbers, the first at least as large as
  the second, and these two are exactly the real solutions of \<open>ax\<^sup>2 + bx + c = 0\<close>.
\<close>

theorem solveQuadratic_roots:
  fixes a b c s :: real
  defines "s \<equiv> sqrt (b * b - 4 * a * c)"
  assumes "a \<noteq> 0" and "0 \<le> b * b - 4 * a * c"
    and "representable (b * b)" and "representable (4 * a)" and "representable (4 * a * c)"
    and "representable (b * b - 4 * a * c)" and "representable s"
    and "representable (- b + s)" and "representable ((- b + s) / 2)"
    and "representable ((- b + s) / 2 / a)"
    and "representable (- b - s)" and "representable ((- b - s) / 2)"
    and "representable ((- b - s) / 2 / a)"
  shows "\<exists>r1 r2. solveQuadratic (Num a) (Num b) (Num c) = (Num r1, Num r2) \<and> r2 \<le> r1 \<and>
    {x. a * x\<^sup>2 + b * x + c = 0} = {r1, r2}"
proof -
  define r where "r = (- b + s) / 2 / a"
  define t where "t = (- b - s) / 2 / a"
  have roots: "{x. a * x\<^sup>2 + b * x + c = 0} = {r, t}"
    unfolding r_def t_def s_def using quadratic_roots [OF assms(2,3)] by blast
  have sq: "solveQuadratic (Num a) (Num b) (Num c) =
      (if t < r then (Num r, Num t) else (Num t, Num r))"
    unfolding r_def t_def s_def
    using solveQuadratic_exact [OF assms(2-) [unfolded representable_def s_def]] .
  show ?thesis
  proof (cases "t < r")
    case True
    with sq roots show ?thesis by auto
  next
    case False
    have "{r, t} = {t, r}" by blast
    with False sq roots show ?thesis by auto
  qed
qed

theorem solveQuadratic_roots_witness:
  "\<exists>r1 r2. solveQuadratic (Num 1) (Num (- 3)) (Num 2) = (Num r1, Num r2) \<and> r2 \<le> r1 \<and>
    {x :: real. 1 * x\<^sup>2 + (- 3) * x + 2 = 0} = {r1, r2}"
  using solveQuadratic_roots [of 1 "- 3" 2] by (simp add: representable_small)

text \<open>
  Claim C8 as stated fails where the arithmetic overflows: for \<open>a = 1\<close>, \<open>b = 2^600\<close>,
  \<open>c = 1\<close> the product \<open>b * b\<close> is rounded to \<^verbatim>\<open>+Infinity\<close> and the function returns
  \<^verbatim>\<open>[Infinity, -Infinity]\<close>, although \<open>a\<close> is nonzero, the discriminant is positive and
  the coefficients are binary64 values.
\<close>

theorem solveQuadratic_counterexample:
  "solveQuadratic (Num 1) (Num (2 ^ 600)) (Num 1) = (PosInf, NegInf) \<and>
   (1 :: real) \<noteq> 0 \<and> (0 :: real) \<le> 2 ^ 600 * 2 ^ 600 - 4 * 1 * 1 \<and>
   representable 1 \<and> representable (2 ^ 600)"
proof (intro conjI)
  have four: "roundTiesToEven 4 = Num 4"
    using representable_small(3) by (simp add: representable_def)
  have "solveQuadratic (Num 1) (Num b) (Num 1) = (PosInf, NegInf)"
    if "roundTiesToEven (b * b) = PosInf" for b
    using that by (simp add: solveQuadratic_def Let_def four minus_number_def infinity_def)
  from this [OF round_overflow]
  show "solveQuadratic (Num 1) (Num (2 ^ 600)) (Num 1) = (PosInf, NegInf)" .
  show "(0 :: real) \<le> 2 ^ 600 * 2 ^ 600 - 4 * 1 * 1"
  proof -
    have "(4 :: real) \<le> 2 ^ 2" by simp
    also have "\<dots> \<le> 2 ^ 600 * 2 ^ 600"
      unfolding power_add [symmetric] by (rule power_increasing) simp_all
    finally show ?thesis by simp
  qed
  show "representable (2 ^ 600)"
    by (rule representable_big)
qed (simp_all add: representable_small)

text \<open>
  Claim C10: when one of the two radii handed to \<^verbatim>\<open>drawShearedEllipse_\<close> has an
  absolute value below 2, or is NaN, the function returns \<^verbatim>\<open>false\<close> and the drawing
  context has received no \<^verbatim>\<open>fillRect\<close> call.
\<close>

theorem drawShearedEllipse_small_radius:
  assumes "Math_abs (options_radiusX options) < Num 2 \<or> options_radiusX options = NaN
    \<or> Math_abs (options_radiusY options) < Num 2 \<or> options_radiusY options = NaN"
  shows "drawShearedEllipse options context = Some (Inr (False, context))"
proof -
  from assms consider
    "Math_abs (options_radiusX options) < Num 2 \<or> options_radiusX options = NaN"
    | "Math_abs (options_radiusY options) < Num 2 \<or> options_radiusY options = NaN"
    by blast
  then show ?thesis
  proof cases
    case 1
    from inset_small [OF this] show ?thesis by (intro guard_false) blast
  next
    case 2
    from inset_small [OF this] show ?thesis by (intro guard_false) blast
  qed
qed

theorem drawShearedEllipse_small_radius_witness:
  "drawShearedEllipse
     \<lparr>options_centerX = Num 8, options_centerY = Num 8, options_radiusX = Num (- 3 / 2),
      options_radiusY = Num 10, options_shearSlope = Num 0, options_isFilled = True\<rparr> [] =
   Some (Inr (False, []))"
  using drawShearedEllipse_small_radius
    [of "\<lparr>options_centerX = Num 8, options_centerY = Num 8, options_radiusX = Num (- 3 / 2),
      options_radiusY = Num 10, options_shearSlope = Num 0, options_isFilled = True\<rparr>" "[]"]
  by simp



end
